theory Spec2Isabelle
  imports Complex_Main
begin

text \<open>
  A shallow embedding of the Grover search demo: \<^verbatim>\<open>grover.py\<close> (bitstring utility, oracle,
  diffuser and circuit assembly), and of \<^verbatim>\<open>main.py\<close> the function \<^verbatim>\<open>recommend_iterations\<close> and
  the counting of the shots in \<^verbatim>\<open>run_grover\<close>. Python integers are \<open>int\<close>, exceptions are
  values of \<open>py_error\<close>, and every function that can raise returns \<open>py_error + result\<close>.
  The definitions come first, the properties after them.
\<close>

section \<open>Errors and Python helpers\<close>

text \<open>
  The exceptions the program can raise. \<open>ValueError\<close> is what the specification calls
  \<open>DomainError\<close>: both \<^verbatim>\<open>raise ValueError(...)\<close> statements of \<^verbatim>\<open>grover.py\<close> and
  Python's own complaint about a malformed format specifier. \<open>CircuitError\<close> is raised by
  the circuit library for a negative register size or a qubit index outside the circuit.
  \<open>OverflowError\<close> is Python's answer to an integer too large in magnitude for a float.
\<close>

datatype py_error = ValueError | CircuitError | OverflowError

text \<open>Sequencing of fallible steps: the first exception ends the computation.\<close>

definition bind_result :: "py_error + 'a \<Rightarrow> ('a \<Rightarrow> py_error + 'b) \<Rightarrow> py_error + 'b" where
  "bind_result r f = (case r of Inl e \<Rightarrow> Inl e | Inr v \<Rightarrow> f v)"

text \<open>\<^verbatim>\<open>range(n)\<close>: the integers \<open>0, \<dots>, n - 1\<close>, empty when \<open>n \<le> 0\<close>.\<close>

definition py_range :: "int \<Rightarrow> int list" where
  "py_range n = map int [0..<nat n]"

section \<open>Bit-index utility\<close>

text \<open>The binary digits of a natural number, most significant first, as \<^verbatim>\<open>bin\<close> prints them.\<close>

definition bit_char :: "nat \<Rightarrow> char" where
  "bit_char d = (if d = 0 then CHR ''0'' else CHR ''1'')"

fun bin_digits :: "nat \<Rightarrow> string" where
  "bin_digits k = (if k < 2 then [bit_char k] else bin_digits (k div 2) @ [bit_char (k mod 2)])"

declare bin_digits.simps [simp del]

text \<open>
  The largest width a format specifier may name: \<^verbatim>\<open>PY_SSIZE_T_MAX\<close>, which is \<open>2\<^sup>6\<^sup>3 - 1\<close> on
  the 64-bit builds of Python. A longer run of digits is refused while the specifier is read
  (\<^verbatim>\<open>ValueError: Too many decimal digits in format string\<close>).
\<close>

definition max_format_width :: int where
  "max_format_width = 2 ^ 63 - 1"

text \<open>
  \<^verbatim>\<open>format(index, f"0{n}b")\<close>. For \<open>0 \<le> n \<le> max_format_width\<close> the specifier reads: zero
  flag, width \<open>n\<close>, type \<open>b\<close>; the sign (only \<open>-\<close> is ever printed) comes first, then zeros
  up to the width, then the binary digits of the magnitude; nothing is ever cut off. For
  \<open>n < 0\<close> the specifier is \<^verbatim>\<open>0-1b\<close> and the like, and for \<open>n > max_format_width\<close> its width
  is too long; Python rejects both with \<open>ValueError\<close>, whatever the index. What is not
  modelled is the machine running out of memory (\<^verbatim>\<open>MemoryError\<close>) on a string it cannot hold.
\<close>

definition py_format_0nb :: "int \<Rightarrow> int \<Rightarrow> py_error + string" where
  "py_format_0nb index n =
     (if n < 0 \<or> max_format_width < n then Inl ValueError
      else let sgn = (if index < 0 then ''-'' else '''');
               digits = bin_digits (nat \<bar>index\<bar>)
           in Inr (sgn @ replicate (nat n - length sgn - length digits) CHR ''0'' @ digits))"

text \<open>\<^verbatim>\<open>index_to_bitstring\<close> (\<^verbatim>\<open>grover.py\<close>, lines 13-15): the format call and nothing else.\<close>

definition index_to_bitstring :: "int \<Rightarrow> int \<Rightarrow> py_error + string" where
  "index_to_bitstring index n = py_format_0nb index n"

text \<open>The number a string of binary digits denotes, read most significant digit first.\<close>

definition bin_value :: "string \<Rightarrow> nat" where
  "bin_value s = foldl (\<lambda>a c. 2 * a + (if c = CHR ''1'' then 1 else 0)) 0 s"

text \<open>
  The same digits written position by position: \<open>n\<close> characters, the one at position
  \<open>i\<close> showing bit \<open>n - 1 - i\<close> of \<open>k\<close>. Used to read \<^verbatim>\<open>enumerate(bs)\<close>.
\<close>

fun msb_bits :: "nat \<Rightarrow> nat \<Rightarrow> string" where
  "msb_bits 0 k = []"
| "msb_bits (Suc n) k = msb_bits n (k div 2) @ [bit_char (k mod 2)]"

section \<open>Circuits\<close>

text \<open>
  The gate vocabulary of the program, each gate with the qubits it acts on, and the
  measurement of a qubit into a classical bit.
\<close>

datatype gate =
    X nat
  | H nat
  | Z nat
  | MCX "nat list" nat
  | Measure nat nat

text \<open>
  An entry of a circuit is a gate, or a whole circuit appended as one instruction
  (\<^verbatim>\<open>qc.append(sub.to_instruction(), qargs)\<close>): its name, its body and the qubits of the
  outer circuit its own qubits \<open>0, 1, \<dots>\<close> are wired to.
\<close>

datatype instr =
    Gate gate
  | Instruction string "instr list" "nat list"

record circuit =
  num_qubits :: nat
  num_clbits :: nat
  name :: string
  data :: "instr list"

text \<open>\<^verbatim>\<open>QuantumCircuit(nq, nc, name=...)\<close>: an empty circuit; a negative size is refused.\<close>

definition QuantumCircuit :: "int \<Rightarrow> int \<Rightarrow> string \<Rightarrow> py_error + circuit" where
  "QuantumCircuit nq nc nm =
     (if nq < 0 \<or> nc < 0 then Inl CircuitError
      else Inr \<lparr>num_qubits = nat nq, num_clbits = nat nc, name = nm, data = []\<rparr>)"

text \<open>
  An integer used as a qubit (or classical bit) specifier indexes the list of bits the
  way Python indexes a list: \<open>-sz \<le> i < sz\<close>, negative values counting from the end;
  anything else is a \<open>CircuitError\<close>.
\<close>

definition bit_index :: "nat \<Rightarrow> int \<Rightarrow> py_error + nat" where
  "bit_index sz i =
     (if - int sz \<le> i \<and> i < int sz
      then Inr (nat (if i < 0 then i + int sz else i))
      else Inl CircuitError)"

fun bit_indices :: "nat \<Rightarrow> int list \<Rightarrow> py_error + nat list" where
  "bit_indices sz [] = Inr []"
| "bit_indices sz (i # rest) =
     bind_result (bit_index sz i) (\<lambda>q.
     bind_result (bit_indices sz rest) (\<lambda>qs. Inr (q # qs)))"

definition append_instr :: "circuit \<Rightarrow> instr \<Rightarrow> circuit" where
  "append_instr qc g = qc\<lparr>data := data qc @ [g]\<rparr>"

text \<open>\<^verbatim>\<open>qc.x(i)\<close>, \<^verbatim>\<open>qc.h(i)\<close>, \<^verbatim>\<open>qc.z(i)\<close> for one integer \<open>i\<close>.\<close>

definition qc_x :: "circuit \<Rightarrow> int \<Rightarrow> py_error + circuit" where
  "qc_x qc i = bind_result (bit_index (num_qubits qc) i) (\<lambda>q. Inr (append_instr qc (Gate (X q))))"

definition qc_h :: "circuit \<Rightarrow> int \<Rightarrow> py_error + circuit" where
  "qc_h qc i = bind_result (bit_index (num_qubits qc) i) (\<lambda>q. Inr (append_instr qc (Gate (H q))))"

definition qc_z :: "circuit \<Rightarrow> int \<Rightarrow> py_error + circuit" where
  "qc_z qc i = bind_result (bit_index (num_qubits qc) i) (\<lambda>q. Inr (append_instr qc (Gate (Z q))))"

text \<open>
  \<^verbatim>\<open>qc.h(range(n))\<close> and \<^verbatim>\<open>qc.x(range(n))\<close>: the gate is broadcast, one copy per qubit of
  the range, in the order of the range. The range is empty only for \<open>n \<le> 0\<close>, where
  \<^verbatim>\<open>build_grover_circuit\<close> has raised before and \<^verbatim>\<open>build_diffuser\<close> fails on its next statement
  in any case.
\<close>

fun broadcast :: "(circuit \<Rightarrow> int \<Rightarrow> py_error + circuit) \<Rightarrow> circuit \<Rightarrow> int list \<Rightarrow> py_error + circuit" where
  "broadcast f qc [] = Inr qc"
| "broadcast f qc (i # rest) = bind_result (f qc i) (\<lambda>qc'. broadcast f qc' rest)"

text \<open>\<^verbatim>\<open>qc.mcx(controls, target)\<close>: the qubits of one gate must be distinct.\<close>

definition qc_mcx :: "circuit \<Rightarrow> int list \<Rightarrow> int \<Rightarrow> py_error + circuit" where
  "qc_mcx qc controls target =
     bind_result (bit_indices (num_qubits qc) controls) (\<lambda>cs.
     bind_result (bit_index (num_qubits qc) target) (\<lambda>t.
       if distinct (cs @ [t]) then Inr (append_instr qc (Gate (MCX cs t)))
       else Inl CircuitError))"

text \<open>
  \<^verbatim>\<open>qc.measure(qubits, clbits)\<close>: qubit and classical bit are paired by position. The
  program passes the same range twice, so the two lists have equal length.
\<close>

fun measure_pairs :: "circuit \<Rightarrow> (nat \<times> nat) list \<Rightarrow> circuit" where
  "measure_pairs qc [] = qc"
| "measure_pairs qc ((q, c) # rest) = measure_pairs (append_instr qc (Gate (Measure q c))) rest"

definition qc_measure :: "circuit \<Rightarrow> int list \<Rightarrow> int list \<Rightarrow> py_error + circuit" where
  "qc_measure qc qubits clbits =
     bind_result (bit_indices (num_qubits qc) qubits) (\<lambda>qs.
     bind_result (bit_indices (num_clbits qc) clbits) (\<lambda>cs.
       if length qs = length cs then Inr (measure_pairs qc (zip qs cs))
       else Inl CircuitError))"

text \<open>
  \<^verbatim>\<open>qc.append(sub.to_instruction(), qargs)\<close>: one entry holding the sub-circuit; it needs
  as many distinct qubits as the sub-circuit has.
\<close>

definition qc_append :: "circuit \<Rightarrow> circuit \<Rightarrow> int list \<Rightarrow> py_error + circuit" where
  "qc_append qc sub qargs =
     bind_result (bit_indices (num_qubits qc) qargs) (\<lambda>qs.
       if length qs = num_qubits sub \<and> distinct qs
       then Inr (append_instr qc (Instruction (name sub) (data sub) qs))
       else Inl CircuitError)"

section \<open>Oracle, diffuser and the Grover circuit\<close>

text \<open>
  The least magnitude of an integer that Python cannot convert to a float: the conversion
  rounds to 53 significant bits, ties to even, and raises \<open>OverflowError\<close> when the rounded
  value reaches \<open>2\<^sup>1\<^sup>0\<^sup>2\<^sup>4\<close>, which is from \<open>2\<^sup>1\<^sup>0\<^sup>2\<^sup>4 - 2\<^sup>9\<^sup>7\<^sup>0\<close> on.
\<close>

definition float_int_limit :: int where
  "float_int_limit = 2 ^ 1024 - 2 ^ 970"

text \<open>
  \<^verbatim>\<open>marked_index >= 2**n\<close>. For \<open>n \<ge> 0\<close> the power is an integer. For \<open>n < 0\<close> Python computes
  it in floats, converting the exponent first: that raises \<open>OverflowError\<close> when \<open>-n\<close> has
  reached \<open>float_int_limit\<close>; otherwise the power is the float \<open>2\<^sup>n\<close>, strictly between 0
  and 1, and \<open>0.0\<close> once it underflows (\<open>n < -1074\<close>).
\<close>

definition ge_pow2 :: "int \<Rightarrow> int \<Rightarrow> py_error + bool" where
  "ge_pow2 marked_index n =
     (if 0 \<le> n then Inr (2 ^ nat n \<le> marked_index)
      else if float_int_limit \<le> - n then Inl OverflowError
      else if - 1074 \<le> n then Inr (1 \<le> marked_index)
      else Inr (0 \<le> marked_index))"

text \<open>
  The loop \<^verbatim>\<open>for i, b in enumerate(bs): if b == "0": qc.x(i)\<close>, with \<open>i\<close> the position
  reached.
\<close>

fun x_where_zero :: "circuit \<Rightarrow> int \<Rightarrow> string \<Rightarrow> py_error + circuit" where
  "x_where_zero qc i [] = Inr qc"
| "x_where_zero qc i (b # bs) =
     (if b = CHR ''0'' then bind_result (qc_x qc i) (\<lambda>qc'. x_where_zero qc' (i + 1) bs)
      else x_where_zero qc (i + 1) bs)"

text \<open>
  The multi-controlled Z, written out twice in the source with the same statements
  (\<^verbatim>\<open>build_oracle\<close> lines 41-48, \<^verbatim>\<open>build_diffuser\<close> lines 74-80): \<open>Z\<close> on the only qubit
  when \<open>n = 1\<close>, otherwise \<open>H\<close> on the last qubit, \<open>MCX\<close> from all the others onto it, and
  \<open>H\<close> again.
\<close>

definition multi_controlled_z :: "circuit \<Rightarrow> int \<Rightarrow> py_error + circuit" where
  "multi_controlled_z qc n =
     (if n = 1 then qc_z qc 0
      else bind_result (qc_h qc (n - 1)) (\<lambda>qc.
           bind_result (qc_mcx qc (py_range (n - 1)) (n - 1)) (\<lambda>qc.
           qc_h qc (n - 1))))"

text \<open>
  \<^verbatim>\<open>build_oracle\<close> (\<^verbatim>\<open>grover.py\<close>, lines 18-55). The range test is
  \<^verbatim>\<open>marked_index < 0 or marked_index >= 2**n\<close>: the power is not computed when the index is
  negative.
\<close>

definition build_oracle :: "int \<Rightarrow> int \<Rightarrow> py_error + circuit" where
  "build_oracle n marked_index =
     bind_result (if marked_index < 0 then Inr True else ge_pow2 marked_index n) (\<lambda>outside.
       if outside then Inl ValueError
       else bind_result (index_to_bitstring marked_index n) (\<lambda>bs.
            bind_result (QuantumCircuit n 0 (''Oracle('' @ bs @ '')'')) (\<lambda>qc.
            bind_result (x_where_zero qc 0 bs) (\<lambda>qc.
            bind_result (multi_controlled_z qc n) (\<lambda>qc.
            x_where_zero qc 0 bs)))))"

definition build_diffuser :: "int \<Rightarrow> py_error + circuit" where
  "build_diffuser n =
     bind_result (QuantumCircuit n 0 ''Diffuser'') (\<lambda>qc.
     bind_result (broadcast qc_h qc (py_range n)) (\<lambda>qc.
     bind_result (broadcast qc_x qc (py_range n)) (\<lambda>qc.
     bind_result (multi_controlled_z qc n) (\<lambda>qc.
     bind_result (broadcast qc_x qc (py_range n)) (\<lambda>qc.
     broadcast qc_h qc (py_range n))))))"

text \<open>
  The loop \<^verbatim>\<open>for _ in range(iterations)\<close> of \<^verbatim>\<open>build_grover_circuit\<close>, over the values
  of the range still to come.
\<close>

fun grover_loop :: "circuit \<Rightarrow> circuit \<Rightarrow> circuit \<Rightarrow> int \<Rightarrow> int list \<Rightarrow> py_error + circuit" where
  "grover_loop qc oracle diffuser n [] = Inr qc"
| "grover_loop qc oracle diffuser n (i # rest) =
     bind_result (qc_append qc oracle (py_range n)) (\<lambda>qc.
     bind_result (qc_append qc diffuser (py_range n)) (\<lambda>qc.
     grover_loop qc oracle diffuser n rest))"

text \<open>
  The circuit made by \<^verbatim>\<open>QuantumCircuit(n, n)\<close> gets a generated name, which plays no
  part anywhere; it is \<open>''circuit''\<close> here.
\<close>

definition build_grover_circuit :: "int \<Rightarrow> int \<Rightarrow> int \<Rightarrow> py_error + circuit" where
  "build_grover_circuit n marked_index iterations =
     (if n < 1 then Inl ValueError
      else bind_result (QuantumCircuit n n ''circuit'') (\<lambda>qc.
           bind_result (broadcast qc_h qc (py_range n)) (\<lambda>qc.
           bind_result (build_oracle n marked_index) (\<lambda>oracle.
           bind_result (build_diffuser n) (\<lambda>diffuser.
           bind_result (grover_loop qc oracle diffuser n (py_range iterations)) (\<lambda>qc.
           qc_measure qc (py_range n) (py_range n)))))))"

text \<open>
  The gate sequences the builders are shown to produce below. \<open>zero_positions i bs\<close> lists
  the positions, counted from \<open>i\<close>, at which \<open>bs\<close> has the character \<open>0\<close>.
\<close>

fun zero_positions :: "nat \<Rightarrow> string \<Rightarrow> nat list" where
  "zero_positions i [] = []"
| "zero_positions i (b # bs) =
     (if b = CHR ''0'' then i # zero_positions (Suc i) bs else zero_positions (Suc i) bs)"

definition mcz_gates :: "nat \<Rightarrow> gate list" where
  "mcz_gates n = (if n = 1 then [Z 0] else [H (n - 1), MCX [0..<n - 1] (n - 1), H (n - 1)])"

definition oracle_gates :: "nat \<Rightarrow> nat \<Rightarrow> gate list" where
  "oracle_gates n m =
     map X (zero_positions 0 (msb_bits n m)) @ mcz_gates n @ map X (zero_positions 0 (msb_bits n m))"

definition diffuser_gates :: "nat \<Rightarrow> gate list" where
  "diffuser_gates n =
     map H [0..<n] @ map X [0..<n] @ mcz_gates n @ map X [0..<n] @ map H [0..<n]"

definition measure_all :: "nat \<Rightarrow> gate list" where
  "measure_all n = map (\<lambda>i. Measure i i) [0..<n]"

text \<open>A circuit with further entries at its end.\<close>

definition add_instrs :: "circuit \<Rightarrow> instr list \<Rightarrow> circuit" where
  "add_instrs qc gs = qc\<lparr>data := data qc @ gs\<rparr>"

text \<open>The qubits a gate acts on.\<close>

fun gate_qubits :: "gate \<Rightarrow> nat list" where
  "gate_qubits (X q) = [q]"
| "gate_qubits (H q) = [q]"
| "gate_qubits (Z q) = [q]"
| "gate_qubits (MCX cs t) = cs @ [t]"
| "gate_qubits (Measure q c) = [q]"

section \<open>Iteration-count advisor\<close>

text \<open>
  \<^verbatim>\<open>recommend_iterations\<close> computes in double-precision floats. The float operations it
  uses are parameters of the model: \<^verbatim>\<open>math.pi\<close>, float division, float multiplication
  and \<^verbatim>\<open>math.sqrt\<close>, each a function on the reals that returns the float result.
\<close>

record float_ops =
  fl_pi :: real
  fl_div :: "real \<Rightarrow> real \<Rightarrow> real"
  fl_mul :: "real \<Rightarrow> real \<Rightarrow> real"
  fl_sqrt :: "real \<Rightarrow> real"

text \<open>
  What is known of them: the result is the exact one up to a relative error \<open>\<epsilon>\<close>, as long
  as the exact result lies in the range of normal doubles, and the square root of zero and
  a product with zero are zero. Round-to-nearest doubles have \<open>\<epsilon> = 2\<^sup>-\<^sup>5\<^sup>3\<close>.
\<close>

definition normal_range :: "real \<Rightarrow> bool" where
  "normal_range v \<longleftrightarrow> 1 / 2 ^ 1022 \<le> \<bar>v\<bar> \<and> \<bar>v\<bar> < 2 ^ 1024"

definition accurate :: "real \<Rightarrow> float_ops \<Rightarrow> bool" where
  "accurate \<epsilon> fl \<longleftrightarrow>
     \<bar>fl_pi fl - pi\<bar> \<le> \<epsilon> * pi \<and>
     (\<forall>a b. b \<noteq> 0 \<and> normal_range (a / b) \<longrightarrow> \<bar>fl_div fl a b - a / b\<bar> \<le> \<epsilon> * \<bar>a / b\<bar>) \<and>
     (\<forall>a b. normal_range (a * b) \<longrightarrow> \<bar>fl_mul fl a b - a * b\<bar> \<le> \<epsilon> * \<bar>a * b\<bar>) \<and>
     (\<forall>a. 0 \<le> a \<and> normal_range (sqrt a) \<longrightarrow> \<bar>fl_sqrt fl a - sqrt a\<bar> \<le> \<epsilon> * sqrt a) \<and>
     fl_sqrt fl 0 = 0 \<and> (\<forall>a. fl_mul fl a 0 = 0)"

text \<open>Arithmetic without rounding, the simplest instance.\<close>

definition exact_ops :: float_ops where
  "exact_ops = \<lparr>fl_pi = pi, fl_div = (\<lambda>a b. a / b), fl_mul = (\<lambda>a b. a * b), fl_sqrt = sqrt\<rparr>"





section \<open>Statevector simulation\<close>

text \<open>
  The sources hand the assembled circuit to an external simulator and contain no code
  that evolves a state vector. The definitions of this section follow the specification
  (sections 3, 4.5 and 4.7) instead, each one marked as such. Amplitudes are exact complex
  numbers, so the specification's normalization check, which guards against floating-point
  drift, has nothing to catch and is not modelled.
\<close>

text \<open>
  Modelled from the spec: the state vector, missing from the sources. It gives every basis
  index its complex amplitude; the indices below \<open>2\<^sup>n\<close> are those of an \<open>n\<close>-qubit register.
\<close>

type_synonym state = "nat \<Rightarrow> complex"

text \<open>
  Modelled from the spec: the correspondence of qubits and index bits, missing from the
  sources (section 3: bit \<open>i\<close> of the \<open>n\<close>-character, most-significant-first binary
  representation of a basis index corresponds to qubit \<open>i\<close>). Qubit \<open>q\<close> is therefore binary
  digit \<open>n - 1 - q\<close> of the index.
\<close>

definition qubit_pos :: "nat \<Rightarrow> nat \<Rightarrow> nat" where
  "qubit_pos n q = n - 1 - q"

text \<open>
  Modelled from the spec: the effect of one gate on the amplitudes, missing from the
  sources (section 4.7). \<open>X\<close> is the bit flip; \<open>H\<close> the equal-superposition mixing (the sum
  of the two amplitudes that differ in the qubit for the value 0, their difference for the
  value 1, over \<open>\<surd>2\<close>); \<open>Z\<close> the sign flip where the qubit is 1; \<open>MCX\<close> the bit flip of the
  target where all controls are 1. The measurement is terminal: the probabilities are read
  from the state it finds.
\<close>

fun apply_gate :: "nat \<Rightarrow> gate \<Rightarrow> state \<Rightarrow> state" where
  "apply_gate n (X q) \<psi> = (\<lambda>k. \<psi> (flip_bit (qubit_pos n q) k))"
| "apply_gate n (H q) \<psi> =
     (\<lambda>k. (\<psi> (unset_bit (qubit_pos n q) k)
            + (if bit k (qubit_pos n q) then - 1 else 1) * \<psi> (set_bit (qubit_pos n q) k))
           / complex_of_real (sqrt 2))"
| "apply_gate n (Z q) \<psi> = (\<lambda>k. if bit k (qubit_pos n q) then - \<psi> k else \<psi> k)"
| "apply_gate n (MCX cs t) \<psi> =
     (\<lambda>k. if \<forall>c \<in> set cs. bit k (qubit_pos n c) then \<psi> (flip_bit (qubit_pos n t) k)
          else \<psi> k)"
| "apply_gate n (Measure q c) \<psi> = \<psi>"

text \<open>
  Modelled from the spec: the state evolution, missing from the sources (section 4.7: each
  gate of the circuit is applied in sequence).
\<close>

definition run_gates :: "nat \<Rightarrow> gate list \<Rightarrow> state \<Rightarrow> state" where
  "run_gates n gs \<psi> = fold (apply_gate n) gs \<psi>"

text \<open>
  Modelled from the spec: the meaning of an appended sub-circuit, missing from the sources
  (sections 3 and 9: its gate sequence inlined on the qubits it is wired to). Qubit \<open>q\<close> of
  the body becomes qubit \<open>qs ! q\<close>; \<^verbatim>\<open>qc_append\<close> has checked that \<open>qs\<close> is long enough.
\<close>

fun rewire :: "nat list \<Rightarrow> gate \<Rightarrow> gate" where
  "rewire qs (X q) = X (qs ! q)"
| "rewire qs (H q) = H (qs ! q)"
| "rewire qs (Z q) = Z (qs ! q)"
| "rewire qs (MCX cs t) = MCX (map ((!) qs) cs) (qs ! t)"
| "rewire qs (Measure q c) = Measure (qs ! q) c"

text \<open>Modelled from the spec: the inlined gate sequence of one entry of a circuit.\<close>

fun inline :: "instr \<Rightarrow> gate list" where
  "inline (Gate g) = [g]"
| "inline (Instruction nm body qs) = map (rewire qs) (concat (map inline body))"

text \<open>Modelled from the spec: the inlined gate sequence of a whole circuit.\<close>

definition flatten :: "instr list \<Rightarrow> gate list" where
  "flatten instrs = concat (map inline instrs)"

text \<open>
  Modelled from the spec: the initial state of a run, missing from the sources (section
  4.7: all amplitude on index 0).
\<close>

definition init_state :: state where
  "init_state = (\<lambda>k. if k = 0 then 1 else 0)"

text \<open>
  Modelled from the spec: the final state of a run of a circuit, missing from the sources
  (section 4.7).
\<close>

definition statevector :: "circuit \<Rightarrow> state" where
  "statevector qc = run_gates (num_qubits qc) (flatten (data qc)) init_state"

text \<open>
  Modelled from the spec: the measurement probability of a basis index, missing from the
  sources (section 4.7: the squared magnitude of its amplitude).
\<close>

definition probability :: "state \<Rightarrow> nat \<Rightarrow> real" where
  "probability \<psi> k = (cmod (\<psi> k))\<^sup>2"

text \<open>
  Modelled from the spec: the uniform superposition over \<open>n\<close> qubits (section 4.5: every
  basis state has amplitude \<open>1 / \<surd>N\<close>).
\<close>

definition uniform_state :: "nat \<Rightarrow> state" where
  "uniform_state n = (\<lambda>k. if k < 2 ^ n then 1 / complex_of_real (sqrt (2 ^ n)) else 0)"

text \<open>
  Modelled from the spec: the mean of the amplitude vector of an \<open>n\<close>-qubit register
  (section 4.4).
\<close>

definition mean_amplitude :: "nat \<Rightarrow> state \<Rightarrow> complex" where
  "mean_amplitude n \<psi> = (\<Sum>k<2 ^ n. \<psi> k) / 2 ^ n"

text \<open>
  Modelled from the spec: the lists of draws that sampling from a state can produce,
  missing from the sources (section 4.7: independent draws from the distribution of the
  probabilities). Every drawn index is in range and has positive probability.
\<close>

definition possible_sample :: "nat \<Rightarrow> state \<Rightarrow> nat list \<Rightarrow> bool" where
  "possible_sample n \<psi> draws \<longleftrightarrow> (\<forall>k \<in> set draws. k < 2 ^ n \<and> 0 < probability \<psi> k)"

section \<open>Counting the shots\<close>

text \<open>
  \<^verbatim>\<open>run_grover\<close> (\<^verbatim>\<open>main.py\<close>, lines 38-42) runs the assembled circuit on the simulator and
  takes \<^verbatim>\<open>result.get_counts()\<close>. What the circuit itself fixes of the outcome is followed
  here: the measurements \<open>Measure q c\<close> that \<^verbatim>\<open>qc.measure(range(n), range(n))\<close> has put at its
  end, and the classical bits they write.
\<close>

text \<open>
  The classical bits at the end of a shot that finds the register in the basis state of
  index \<open>k\<close>. Every classical bit starts at 0; \<open>Measure q c\<close> writes into classical bit \<open>c\<close>
  the value of qubit \<open>q\<close>, which is binary digit \<open>qubit_pos n q\<close> of \<open>k\<close>; the other gates
  write nothing.
\<close>

fun measured_bits :: "nat \<Rightarrow> gate list \<Rightarrow> nat \<Rightarrow> (nat \<Rightarrow> bool) \<Rightarrow> (nat \<Rightarrow> bool)" where
  "measured_bits n [] k cl = cl"
| "measured_bits n (Measure q c # gs) k cl = measured_bits n gs k (cl(c := bit k (qubit_pos n q)))"
| "measured_bits n (X q # gs) k cl = measured_bits n gs k cl"
| "measured_bits n (H q # gs) k cl = measured_bits n gs k cl"
| "measured_bits n (Z q # gs) k cl = measured_bits n gs k cl"
| "measured_bits n (MCX cs t # gs) k cl = measured_bits n gs k cl"

text \<open>
  The key under which \<^verbatim>\<open>get_counts\<close> reports such a shot: one character per classical bit
  of the circuit, in the order in which the circuit library writes a classical register,
  the last classical bit first and classical bit 0 last.
\<close>

definition counts_key :: "circuit \<Rightarrow> nat \<Rightarrow> string" where
  "counts_key qc k =
     map (\<lambda>c. if measured_bits (num_qubits qc) (flatten (data qc)) k (\<lambda>c. False) c
              then CHR ''1'' else CHR ''0'')
       (rev [0..<num_clbits qc])"

text \<open>The tally of one shot into the outcome-count mapping.\<close>

definition count_shot :: "circuit \<Rightarrow> nat \<Rightarrow> (string \<rightharpoonup> nat) \<Rightarrow> (string \<rightharpoonup> nat)" where
  "count_shot qc k m =
     m(counts_key qc k \<mapsto> (case m (counts_key qc k) of None \<Rightarrow> 1 | Some c \<Rightarrow> c + 1))"

text \<open>
  \<^verbatim>\<open>result.get_counts()\<close>: the outcome-count mapping of a run, given the basis indices that
  its shots have found, one per shot.
\<close>

definition get_counts :: "circuit \<Rightarrow> nat list \<Rightarrow> (string \<rightharpoonup> nat)" where
  "get_counts qc draws = fold (count_shot qc) draws Map.empty"

text \<open>
  Auxiliary notions for the proofs: the Hadamard mixing on a binary digit \<open>p\<close> of the index and
  on a list of digits; the flip of a list of digits; the part of a state inside an
  \<open>n\<close>-qubit register; the indices whose set digits all lie in a set \<open>S\<close>.
\<close>

definition hgate :: "nat \<Rightarrow> state \<Rightarrow> state" where
  "hgate p \<psi> = (\<lambda>k. (\<psi> (unset_bit p k) + (if bit k p then - 1 else 1) * \<psi> (set_bit p k))
                     / complex_of_real (sqrt 2))"

definition hlayer :: "nat list \<Rightarrow> state \<Rightarrow> state" where
  "hlayer ps \<psi> = fold hgate ps \<psi>"

definition register_part :: "nat \<Rightarrow> state \<Rightarrow> state" where
  "register_part n \<psi> = (\<lambda>k. if k < 2 ^ n then \<psi> k else 0)"

definition indices_over :: "nat set \<Rightarrow> nat set" where
  "indices_over S = {k. \<forall>i. bit k i \<longrightarrow> i \<in> S}"

definition flips :: "nat list \<Rightarrow> nat \<Rightarrow> nat" where
  "flips ps k = foldr flip_bit ps k"

section \<open>Properties of the bit-index utility\<close>

lemma bin_digits_not_Nil: "bin_digits k \<noteq> []"
  by (subst bin_digits.simps) simp

lemma length_bin_digits_pos: "0 < length (bin_digits k)"
  by (simp add: bin_digits_not_Nil)

lemma length_bin_digits_le: "0 < n \<Longrightarrow> k < 2 ^ n \<Longrightarrow> length (bin_digits k) \<le> n"
proof (induction n arbitrary: k)
  case 0 then show ?case by simp
next
  case (Suc n)
  show ?case
  proof (cases "k < 2")
    case True then show ?thesis by (subst bin_digits.simps) simp
  next
    case False
    then have "0 < n" using Suc.prems by (cases n) auto
    moreover have "k div 2 < 2 ^ n" using Suc.prems by auto
    ultimately have "length (bin_digits (k div 2)) \<le> n" by (rule Suc.IH)
    then show ?thesis using False by (subst bin_digits.simps) simp
  qed
qed

lemma length_bin_digits_gt: "2 ^ n \<le> k \<Longrightarrow> n < length (bin_digits k)"
proof (induction n arbitrary: k)
  case 0 then show ?case by (simp add: bin_digits_not_Nil)
next
  case (Suc n)
  have "(2::nat) \<le> 2 ^ Suc n" by simp
  with Suc.prems have k2: "\<not> k < 2" by linarith
  have "2 ^ n \<le> k div 2" using Suc.prems by auto
  then have "n < length (bin_digits (k div 2))" by (rule Suc.IH)
  then show ?case using k2 by (subst bin_digits.simps) simp
qed

lemma set_bin_digits: "set (bin_digits k) \<subseteq> {CHR ''0'', CHR ''1''}"
proof (induction k rule: bin_digits.induct)
  case (1 k)
  show ?case
  proof (cases "k < 2")
    case True then show ?thesis by (subst bin_digits.simps) (simp add: bit_char_def)
  next
    case False
    with 1 show ?thesis by (subst bin_digits.simps) (auto simp: bit_char_def)
  qed
qed

lemma bin_value_snoc: "bin_value (s @ [c]) = 2 * bin_value s + (if c = CHR ''1'' then 1 else 0)"
  by (simp add: bin_value_def)

lemma bin_value_bit_char: "d < 2 \<Longrightarrow> (if bit_char d = CHR ''1'' then 1 else 0) = d"
  by (auto simp: bit_char_def)

lemma bin_value_bin_digits: "bin_value (bin_digits k) = k"
proof (induction k rule: bin_digits.induct)
  case (1 k)
  show ?case
  proof (cases "k < 2")
    case True then show ?thesis
      by (subst bin_digits.simps) (auto simp: bin_value_def bit_char_def)
  next
    case False
    have "bin_value (bin_digits k) = 2 * bin_value (bin_digits (k div 2)) + (if bit_char (k mod 2) = CHR ''1'' then 1 else 0)"
      using False by (subst bin_digits.simps) (simp add: bin_value_snoc)
    also have "\<dots> = 2 * (k div 2) + k mod 2"
      using 1 False by (simp add: bin_value_bit_char)
    finally show ?thesis by simp
  qed
qed

lemma bin_value_zeros: "bin_value (replicate m CHR ''0'' @ s) = bin_value s"
  by (induction m) (simp_all add: bin_value_def)

lemma length_msb_bits [simp]: "length (msb_bits n k) = n"
  by (induction n arbitrary: k) simp_all

lemma msb_bits_zero: "msb_bits n 0 = replicate n CHR ''0''"
  by (induction n) (simp_all add: bit_char_def replicate_append_same)

lemma pad_eq_msb_bits:
  "0 < n \<Longrightarrow> k < 2 ^ n \<Longrightarrow>
   replicate (n - length (bin_digits k)) CHR ''0'' @ bin_digits k = msb_bits n k"
proof (induction n arbitrary: k)
  case 0 then show ?case by simp
next
  case (Suc n)
  show ?case
  proof (cases "k < 2")
    case True
    then have "bin_digits k = [bit_char k]" by (subst bin_digits.simps) simp
    moreover have "k div 2 = 0" "k mod 2 = k" using True by auto
    ultimately show ?thesis by (simp add: msb_bits_zero)
  next
    case False
    then have "0 < n" using Suc.prems by (cases n) auto
    moreover have "k div 2 < 2 ^ n" using Suc.prems by auto
    ultimately have IH: "replicate (n - length (bin_digits (k div 2))) CHR ''0'' @ bin_digits (k div 2) = msb_bits n (k div 2)"
      by (rule Suc.IH)
    have "bin_digits k = bin_digits (k div 2) @ [bit_char (k mod 2)]"
      using False by (subst bin_digits.simps) simp
    then show ?thesis using IH by simp
  qed
qed

lemma msb_bits_nth:
  "i < n \<Longrightarrow> msb_bits n k ! i = (if bit k (n - 1 - i) then CHR ''1'' else CHR ''0'')"
proof (induction n arbitrary: k i)
  case 0 then show ?case by simp
next
  case (Suc n)
  show ?case
  proof (cases "i < n")
    case True
    then have "msb_bits (Suc n) k ! i = msb_bits n (k div 2) ! i"
      by (simp add: nth_append length_msb_bits)
    also have "\<dots> = (if bit (k div 2) (n - 1 - i) then CHR ''1'' else CHR ''0'')"
      using True by (rule Suc.IH)
    also have "bit (k div 2) (n - 1 - i) = bit k (Suc (n - 1 - i))"
      by (simp add: bit_Suc)
    also have "Suc (n - 1 - i) = Suc n - 1 - i" using True by simp
    finally show ?thesis .
  next
    case False
    with Suc.prems have "i = n" by simp
    then show ?thesis
      by (auto simp: nth_append length_msb_bits bit_char_def bit_0 odd_iff_mod_2_eq_one)
  qed
qed

lemma index_to_bitstring_nonneg:
  "0 \<le> n \<Longrightarrow> n \<le> max_format_width \<Longrightarrow> 0 \<le> index \<Longrightarrow>
   index_to_bitstring index n =
     Inr (replicate (nat n - length (bin_digits (nat index))) CHR ''0'' @ bin_digits (nat index))"
  by (simp add: index_to_bitstring_def py_format_0nb_def Let_def)

lemma index_to_bitstring_neg:
  "0 \<le> n \<Longrightarrow> n \<le> max_format_width \<Longrightarrow> index < 0 \<Longrightarrow>
   index_to_bitstring index n =
     Inr (CHR ''-'' # replicate (nat n - 1 - length (bin_digits (nat (- index)))) CHR ''0''
          @ bin_digits (nat (- index)))"
  by (simp add: index_to_bitstring_def py_format_0nb_def Let_def)

lemma index_to_bitstring_msb_bits:
  assumes "1 \<le> n" "n \<le> max_format_width" "0 \<le> index" "index < 2 ^ nat n"
  shows "index_to_bitstring index n = Inr (msb_bits (nat n) (nat index))"
proof -
  have "nat index < 2 ^ nat n" using assms by (simp add: nat_less_iff)
  moreover have "0 < nat n" using assms by simp
  ultimately show ?thesis using assms
    by (simp add: index_to_bitstring_nonneg pad_eq_msb_bits)
qed

lemma index_to_bitstring_msb_bits_nat:
  "0 < n \<Longrightarrow> int n \<le> max_format_width \<Longrightarrow> m < 2 ^ n \<Longrightarrow>
   index_to_bitstring (int m) (int n) = Inr (msb_bits n m)"
  using index_to_bitstring_msb_bits [of "int n" "int m"]
  by (simp add: nat_less_iff flip: of_nat_power)

section \<open>What the builders return\<close>

lemma bind_result_Inr [simp]: "bind_result (Inr v) f = f v"
  by (simp add: bind_result_def)

lemma bind_result_Inl [simp]: "bind_result (Inl e) f = Inl e"
  by (simp add: bind_result_def)

lemma bit_index_nat [simp]: "q < sz \<Longrightarrow> bit_index sz (int q) = Inr q"
  by (simp add: bit_index_def)

lemma bit_indices_nat: "\<forall>q \<in> set qs. q < sz \<Longrightarrow> bit_indices sz (map int qs) = Inr qs"
  by (induction qs) simp_all

lemma py_range_nat [simp]: "py_range (int m) = map int [0..<m]"
  by (simp add: py_range_def)

lemma py_range_nonpos [simp]: "i \<le> 0 \<Longrightarrow> py_range i = []"
  by (simp add: py_range_def)

lemma num_qubits_append_instr [simp]: "num_qubits (append_instr qc g) = num_qubits qc"
  and num_clbits_append_instr [simp]: "num_clbits (append_instr qc g) = num_clbits qc"
  and name_append_instr [simp]: "name (append_instr qc g) = name qc"
  and data_append_instr [simp]: "data (append_instr qc g) = data qc @ [g]"
  by (simp_all add: append_instr_def)

lemma add_instrs_simps [simp]:
  "num_qubits (add_instrs qc gs) = num_qubits qc"
  "num_clbits (add_instrs qc gs) = num_clbits qc"
  "name (add_instrs qc gs) = name qc"
  "data (add_instrs qc gs) = data qc @ gs"
  by (simp_all add: add_instrs_def)

lemma add_instrs_Nil [simp]: "add_instrs qc [] = qc"
  by (simp add: add_instrs_def)

lemma add_instrs_twice [simp]: "add_instrs (add_instrs qc gs) hs = add_instrs qc (gs @ hs)"
  by (simp add: add_instrs_def)

lemma append_instr_add_instrs: "append_instr qc g = add_instrs qc [g]"
  by (simp add: add_instrs_def append_instr_def)

lemma qc_x_nat: "q < num_qubits qc \<Longrightarrow> qc_x qc (int q) = Inr (add_instrs qc [Gate (X q)])"
  by (simp add: qc_x_def append_instr_add_instrs)

lemma qc_h_nat: "q < num_qubits qc \<Longrightarrow> qc_h qc (int q) = Inr (add_instrs qc [Gate (H q)])"
  by (simp add: qc_h_def append_instr_add_instrs)

lemma qc_z_nat: "q < num_qubits qc \<Longrightarrow> qc_z qc (int q) = Inr (add_instrs qc [Gate (Z q)])"
  by (simp add: qc_z_def append_instr_add_instrs)

lemma broadcast_h:
  "\<forall>q \<in> set qs. q < num_qubits qc \<Longrightarrow>
   broadcast qc_h qc (map int qs) = Inr (add_instrs qc (map (\<lambda>q. Gate (H q)) qs))"
  by (induction qs arbitrary: qc) (simp_all add: qc_h_nat)

lemma broadcast_x:
  "\<forall>q \<in> set qs. q < num_qubits qc \<Longrightarrow>
   broadcast qc_x qc (map int qs) = Inr (add_instrs qc (map (\<lambda>q. Gate (X q)) qs))"
  by (induction qs arbitrary: qc) (simp_all add: qc_x_nat)

lemma x_where_zero_nat:
  "i + length bs \<le> num_qubits qc \<Longrightarrow>
   x_where_zero qc (int i) bs = Inr (add_instrs qc (map (\<lambda>q. Gate (X q)) (zero_positions i bs)))"
proof (induction bs arbitrary: qc i)
  case Nil then show ?case by simp
next
  case (Cons b bs)
  have step: "int i + 1 = int (Suc i)" by simp
  show ?case
  proof (cases "b = CHR ''0''")
    case True
    have "i < num_qubits qc" using Cons.prems by simp
    then have "qc_x qc (int i) = Inr (add_instrs qc [Gate (X i)])" by (rule qc_x_nat)
    moreover have "x_where_zero (add_instrs qc [Gate (X i)]) (int (Suc i)) bs
        = Inr (add_instrs (add_instrs qc [Gate (X i)]) (map (\<lambda>q. Gate (X q)) (zero_positions (Suc i) bs)))"
      using Cons.prems by (intro Cons.IH) simp
    ultimately show ?thesis using True by (simp add: step del: of_nat_Suc)
  next
    case False
    have "x_where_zero qc (int (Suc i)) bs
        = Inr (add_instrs qc (map (\<lambda>q. Gate (X q)) (zero_positions (Suc i) bs)))"
      using Cons.prems by (intro Cons.IH) simp
    then show ?thesis using False by (simp add: step del: of_nat_Suc)
  qed
qed

lemma qc_mcx_nat:
  assumes "\<forall>c \<in> set cs. c < num_qubits qc" and "t < num_qubits qc" and "distinct (cs @ [t])"
  shows "qc_mcx qc (map int cs) (int t) = Inr (add_instrs qc [Gate (MCX cs t)])"
  using assms by (simp add: qc_mcx_def bit_indices_nat append_instr_add_instrs)

lemma multi_controlled_z_nat:
  assumes "0 < n" and "num_qubits qc = n"
  shows "multi_controlled_z qc (int n) = Inr (add_instrs qc (map Gate (mcz_gates n)))"
proof (cases "n = 1")
  case True
  then show ?thesis using assms
    by (simp add: multi_controlled_z_def mcz_gates_def qc_z_nat [of 0, simplified])
next
  case False
  define p where "p = n - 1"
  have p: "p < n" "int n - 1 = int p" "int n \<noteq> 1" using False assms by (simp_all add: p_def)
  have h1: "qc_h qc (int p) = Inr (add_instrs qc [Gate (H p)])"
    using assms p by (intro qc_h_nat) simp
  have m: "qc_mcx (add_instrs qc [Gate (H p)]) (map int [0..<p]) (int p)
      = Inr (add_instrs (add_instrs qc [Gate (H p)]) [Gate (MCX [0..<p] p)])"
    using assms p by (intro qc_mcx_nat) auto
  have h2: "qc_h (add_instrs (add_instrs qc [Gate (H p)]) [Gate (MCX [0..<p] p)]) (int p)
      = Inr (add_instrs (add_instrs (add_instrs qc [Gate (H p)]) [Gate (MCX [0..<p] p)]) [Gate (H p)])"
    using assms p by (intro qc_h_nat) simp
  have g: "mcz_gates n = [H p, MCX [0..<p] p, H p]"
    using False by (simp add: mcz_gates_def p_def)
  show ?thesis
    unfolding multi_controlled_z_def g
    by (simp only: p if_False py_range_nat h1 m h2 bind_result_Inr) simp
qed

lemma QuantumCircuit_nat [simp]:
  "QuantumCircuit (int n) (int c) nm = Inr \<lparr>num_qubits = n, num_clbits = c, name = nm, data = []\<rparr>"
  by (simp add: QuantumCircuit_def)

lemma QuantumCircuit_nat0 [simp]:
  "QuantumCircuit (int n) 0 nm = Inr \<lparr>num_qubits = n, num_clbits = 0, name = nm, data = []\<rparr>"
  by (simp add: QuantumCircuit_def)

lemma add_instrs_empty:
  "add_instrs \<lparr>num_qubits = n, num_clbits = c, name = nm, data = []\<rparr> gs
     = \<lparr>num_qubits = n, num_clbits = c, name = nm, data = gs\<rparr>"
  by (simp add: add_instrs_def)

lemma ge_pow2_nat [simp]: "ge_pow2 (int m) (int n) = Inr (2 ^ n \<le> m)"
proof -
  have "(2 ^ n \<le> int m) = (int (2 ^ n) \<le> int m)" by simp
  also have "\<dots> = (2 ^ n \<le> m)" by (rule of_nat_le_iff)
  finally show ?thesis by (simp add: ge_pow2_def)
qed

lemma build_oracle_nat:
  assumes "0 < n" and "int n \<le> max_format_width" and "m < 2 ^ n"
  shows "build_oracle (int n) (int m) =
     Inr \<lparr>num_qubits = n, num_clbits = 0, name = ''Oracle('' @ msb_bits n m @ '')'',
          data = map Gate (oracle_gates n m)\<rparr>"
proof -
  let ?qc = "\<lparr>num_qubits = n, num_clbits = 0, name = ''Oracle('' @ msb_bits n m @ '')'', data = []\<rparr>"
  let ?xs = "map (\<lambda>q. Gate (X q)) (zero_positions 0 (msb_bits n m))"
  have x1: "x_where_zero ?qc 0 (msb_bits n m) = Inr (add_instrs ?qc ?xs)"
    using x_where_zero_nat [of 0 "msb_bits n m" ?qc] by simp
  have z: "multi_controlled_z (add_instrs ?qc ?xs) (int n)
      = Inr (add_instrs (add_instrs ?qc ?xs) (map Gate (mcz_gates n)))"
    using assms by (intro multi_controlled_z_nat) simp_all
  have x2: "x_where_zero (add_instrs (add_instrs ?qc ?xs) (map Gate (mcz_gates n))) 0 (msb_bits n m)
      = Inr (add_instrs (add_instrs (add_instrs ?qc ?xs) (map Gate (mcz_gates n))) ?xs)"
    using x_where_zero_nat [of 0 "msb_bits n m" "add_instrs (add_instrs ?qc ?xs) (map Gate (mcz_gates n))"]
    by simp
  have r: "(if int m < 0 then Inr True else ge_pow2 (int m) (int n)) = Inr False"
    using assms by simp
  have "build_oracle (int n) (int m) = Inr (add_instrs (add_instrs (add_instrs ?qc ?xs) (map Gate (mcz_gates n))) ?xs)"
    unfolding build_oracle_def
    by (simp only: r if_False index_to_bitstring_msb_bits_nat [OF assms] bind_result_Inr
        QuantumCircuit_nat0 x1 z x2)
  then show ?thesis
    by (simp add: add_instrs_def oracle_gates_def comp_def)
qed

lemma build_diffuser_nat:
  assumes "0 < n"
  shows "build_diffuser (int n) =
     Inr \<lparr>num_qubits = n, num_clbits = 0, name = ''Diffuser'', data = map Gate (diffuser_gates n)\<rparr>"
proof -
  let ?qc = "\<lparr>num_qubits = n, num_clbits = 0, name = ''Diffuser'', data = []\<rparr>"
  let ?hs = "map (\<lambda>q. Gate (H q)) [0..<n]"
  let ?xs = "map (\<lambda>q. Gate (X q)) [0..<n]"
  have bh: "\<And>qc. num_qubits qc = n \<Longrightarrow> broadcast qc_h qc (map int [0..<n]) = Inr (add_instrs qc ?hs)"
    by (rule broadcast_h) simp
  have bx: "\<And>qc. num_qubits qc = n \<Longrightarrow> broadcast qc_x qc (map int [0..<n]) = Inr (add_instrs qc ?xs)"
    by (rule broadcast_x) simp
  have z: "\<And>qc. num_qubits qc = n \<Longrightarrow> multi_controlled_z qc (int n) = Inr (add_instrs qc (map Gate (mcz_gates n)))"
    using assms by (intro multi_controlled_z_nat) simp_all
  have "build_diffuser (int n) = Inr (add_instrs ?qc (?hs @ ?xs @ map Gate (mcz_gates n) @ ?xs @ ?hs))"
    unfolding build_diffuser_def
    by (simp add: bh bx z)
  then show ?thesis
    by (simp add: add_instrs_def diffuser_gates_def comp_def)
qed

lemma qc_append_nat:
  assumes "num_qubits qc = n" and "num_qubits sub = n"
  shows "qc_append qc sub (map int [0..<n]) = Inr (add_instrs qc [Instruction (name sub) (data sub) [0..<n]])"
proof -
  have "bit_indices n (map int [0..<n]) = Inr [0..<n]"
    by (rule bit_indices_nat) simp
  then show ?thesis using assms
    by (simp add: qc_append_def append_instr_add_instrs)
qed

lemma grover_loop_nat:
  assumes "num_qubits qc = n" and "num_qubits oracle = n" and "num_qubits diffuser = n"
  shows "grover_loop qc oracle diffuser (int n) rounds =
     Inr (add_instrs qc (concat (replicate (length rounds)
            [Instruction (name oracle) (data oracle) [0..<n],
             Instruction (name diffuser) (data diffuser) [0..<n]])))"
  using assms(1)
proof (induction rounds arbitrary: qc)
  case Nil then show ?case by simp
next
  case (Cons r rounds)
  let ?O = "Instruction (name oracle) (data oracle) [0..<n]"
  let ?D = "Instruction (name diffuser) (data diffuser) [0..<n]"
  have a1: "qc_append qc oracle (map int [0..<n]) = Inr (add_instrs qc [?O])"
    using Cons.prems assms(2) by (rule qc_append_nat)
  have a2: "qc_append (add_instrs qc [?O]) diffuser (map int [0..<n])
      = Inr (add_instrs (add_instrs qc [?O]) [?D])"
    using Cons.prems assms(3) by (intro qc_append_nat) simp_all
  have "grover_loop (add_instrs (add_instrs qc [?O]) [?D]) oracle diffuser (int n) rounds
      = Inr (add_instrs (add_instrs (add_instrs qc [?O]) [?D])
              (concat (replicate (length rounds) [?O, ?D])))"
    using Cons.prems by (intro Cons.IH) simp
  then show ?case by (simp add: a1 a2)
qed

lemma measure_pairs_add_instrs:
  "measure_pairs qc ps = add_instrs qc (map (\<lambda>(q, c). Gate (Measure q c)) ps)"
  by (induction qc ps rule: measure_pairs.induct) (simp_all add: append_instr_add_instrs)

lemma qc_measure_nat:
  assumes "num_qubits qc = n" and "num_clbits qc = n"
  shows "qc_measure qc (map int [0..<n]) (map int [0..<n]) = Inr (add_instrs qc (map Gate (measure_all n)))"
proof -
  have "bit_indices n (map int [0..<n]) = Inr [0..<n]"
    by (rule bit_indices_nat) simp
  then show ?thesis using assms
    by (simp add: qc_measure_def measure_pairs_add_instrs measure_all_def zip_same_conv_map comp_def)
qed

lemma length_py_range [simp]: "length (py_range i) = nat i"
  by (simp add: py_range_def)

lemma build_grover_circuit_nat:
  assumes "0 < n" and "int n \<le> max_format_width" and "m < 2 ^ n"
  shows "build_grover_circuit (int n) (int m) iterations =
     Inr \<lparr>num_qubits = n, num_clbits = n, name = ''circuit'',
          data = map (\<lambda>q. Gate (H q)) [0..<n]
               @ concat (replicate (nat iterations)
                   [Instruction (''Oracle('' @ msb_bits n m @ '')'') (map Gate (oracle_gates n m)) [0..<n],
                    Instruction ''Diffuser'' (map Gate (diffuser_gates n)) [0..<n]])
               @ map Gate (measure_all n)\<rparr>"
proof -
  let ?qc = "\<lparr>num_qubits = n, num_clbits = n, name = ''circuit'', data = []\<rparr>"
  let ?hs = "map (\<lambda>q. Gate (H q)) [0..<n]"
  let ?orc = "\<lparr>num_qubits = n, num_clbits = 0, name = ''Oracle('' @ msb_bits n m @ '')'',
          data = map Gate (oracle_gates n m)\<rparr>"
  let ?dif = "\<lparr>num_qubits = n, num_clbits = 0, name = ''Diffuser'', data = map Gate (diffuser_gates n)\<rparr>"
  let ?blocks = "concat (replicate (nat iterations)
                   [Instruction (''Oracle('' @ msb_bits n m @ '')'') (map Gate (oracle_gates n m)) [0..<n],
                    Instruction ''Diffuser'' (map Gate (diffuser_gates n)) [0..<n]])"
  have n1: "\<not> int n < 1" using assms by simp
  have h: "broadcast qc_h ?qc (map int [0..<n]) = Inr (add_instrs ?qc ?hs)"
    by (rule broadcast_h) simp
  have l: "grover_loop (add_instrs ?qc ?hs) ?orc ?dif (int n) (py_range iterations)
      = Inr (add_instrs (add_instrs ?qc ?hs) ?blocks)"
    using grover_loop_nat [of "add_instrs ?qc ?hs" n ?orc ?dif "py_range iterations"]
    by simp
  have m: "qc_measure (add_instrs (add_instrs ?qc ?hs) ?blocks) (map int [0..<n]) (map int [0..<n])
      = Inr (add_instrs (add_instrs (add_instrs ?qc ?hs) ?blocks) (map Gate (measure_all n)))"
    by (rule qc_measure_nat) simp_all
  have "build_grover_circuit (int n) (int m) iterations
      = Inr (add_instrs (add_instrs (add_instrs ?qc ?hs) ?blocks) (map Gate (measure_all n)))"
    unfolding build_grover_circuit_def
    by (simp only: n1 if_False QuantumCircuit_nat py_range_nat h bind_result_Inr
        build_oracle_nat [OF assms] build_diffuser_nat [OF assms(1)] l m)
  then show ?thesis by (simp add: add_instrs_def)
qed

section \<open>The assembled circuit\<close>

lemma rewire_upt: "\<forall>q \<in> set (gate_qubits g). q < n \<Longrightarrow> rewire [0..<n] g = g"
  by (cases g) (simp_all add: map_idI)

lemma inline_instruction_upt:
  "\<forall>g \<in> set gs. \<forall>q \<in> set (gate_qubits g). q < n \<Longrightarrow>
   inline (Instruction nm (map Gate gs) [0..<n]) = gs"
proof -
  assume ok: "\<forall>g \<in> set gs. \<forall>q \<in> set (gate_qubits g). q < n"
  have "concat (map inline (map Gate gs)) = gs" by (induction gs) simp_all
  moreover have "map (rewire [0..<n]) gs = gs" using ok by (intro map_idI rewire_upt) simp
  ultimately show ?thesis by simp
qed

lemma flatten_append [simp]: "flatten (xs @ ys) = flatten xs @ flatten ys"
  by (simp add: flatten_def)

lemma flatten_Gates [simp]: "flatten (map Gate gs) = gs"
  by (induction gs) (simp_all add: flatten_def)

lemma flatten_Gates' [simp]: "flatten (map (\<lambda>q. Gate (f q)) qs) = map f qs"
  by (induction qs) (simp_all add: flatten_def)

lemma flatten_rounds:
  "flatten (concat (replicate r [a, b])) = concat (replicate r (inline a @ inline b))"
  by (induction r) (simp_all add: flatten_def)

lemma zero_positions_bound: "q \<in> set (zero_positions i bs) \<Longrightarrow> i \<le> q \<and> q < i + length bs"
  by (induction i bs rule: zero_positions.induct) (auto split: if_splits)

lemma mcz_gates_ok: "0 < n \<Longrightarrow> g \<in> set (mcz_gates n) \<Longrightarrow> q \<in> set (gate_qubits g) \<Longrightarrow> q < n"
  by (auto simp: mcz_gates_def split: if_splits)

lemma oracle_gates_ok:
  "0 < n \<Longrightarrow> g \<in> set (oracle_gates n m) \<Longrightarrow> q \<in> set (gate_qubits g) \<Longrightarrow> q < n"
  by (auto simp: oracle_gates_def dest: mcz_gates_ok zero_positions_bound)

lemma diffuser_gates_ok:
  "0 < n \<Longrightarrow> g \<in> set (diffuser_gates n) \<Longrightarrow> q \<in> set (gate_qubits g) \<Longrightarrow> q < n"
  by (auto simp: diffuser_gates_def dest: mcz_gates_ok)

lemma flatten_grover:
  assumes "0 < n"
  shows "flatten (map (\<lambda>q. Gate (H q)) [0..<n]
               @ concat (replicate r
                   [Instruction nm1 (map Gate (oracle_gates n m)) [0..<n],
                    Instruction nm2 (map Gate (diffuser_gates n)) [0..<n]])
               @ map Gate (measure_all n))
       = map H [0..<n] @ concat (replicate r (oracle_gates n m @ diffuser_gates n)) @ measure_all n"
proof -
  have "inline (Instruction nm1 (map Gate (oracle_gates n m)) [0..<n]) = oracle_gates n m"
    using assms by (intro inline_instruction_upt) (blast dest: oracle_gates_ok)
  moreover have "inline (Instruction nm2 (map Gate (diffuser_gates n)) [0..<n]) = diffuser_gates n"
    using assms by (intro inline_instruction_upt) (blast dest: diffuser_gates_ok)
  ultimately show ?thesis
    by (simp add: flatten_rounds)
qed

text \<open>
  Claim C4. For \<open>n < 1\<close> \<^verbatim>\<open>build_grover_circuit\<close> fails with \<open>ValueError\<close> (the
  specification's \<open>DomainError\<close>), in particular at \<open>(0, 0, 1)\<close>. For \<open>n \<ge> 1\<close> (and no more
  than \<open>max_format_width\<close>, the widest bitstring Python formats) and a marked index in
  \<open>[0, 2\<^sup>n)\<close> it returns a circuit on \<open>n\<close> qubits and \<open>n\<close> classical bits whose entries are: \<open>H\<close> on each qubit \<open>0, \<dots>, n - 1\<close>; then, as many times as
  \<^verbatim>\<open>range(iterations)\<close> has values, the oracle block followed by the diffuser block, each
  wired to the qubits \<open>0, \<dots>, n - 1\<close>; then the measurement of qubit \<open>i\<close> into classical bit
  \<open>i\<close> for every \<open>i\<close>, and nothing after it. Inlined, the gate sequence is the \<open>H\<close> layer,
  the gates of oracle and diffuser in alternation, and the measurements.
\<close>
theorem build_grover_circuit_structure:
  "(n < 1 \<longrightarrow> build_grover_circuit n marked_index iterations = Inl ValueError) \<and>
   build_grover_circuit 0 0 1 = Inl ValueError \<and>
   (1 \<le> n \<and> n \<le> max_format_width \<and> 0 \<le> marked_index \<and> marked_index < 2 ^ nat n \<longrightarrow>
     (\<exists>qc oracle diffuser.
        build_oracle n marked_index = Inr oracle \<and> build_diffuser n = Inr diffuser \<and>
        build_grover_circuit n marked_index iterations = Inr qc \<and>
        num_qubits qc = nat n \<and> num_clbits qc = nat n \<and>
        data qc = map (\<lambda>q. Gate (H q)) [0..<nat n]
                @ concat (replicate (nat iterations)
                    [Instruction (name oracle) (data oracle) [0..<nat n],
                     Instruction (name diffuser) (data diffuser) [0..<nat n]])
                @ map (\<lambda>i. Gate (Measure i i)) [0..<nat n] \<and>
        flatten (data qc) = map H [0..<nat n]
                @ concat (replicate (nat iterations) (flatten (data oracle) @ flatten (data diffuser)))
                @ map (\<lambda>i. Measure i i) [0..<nat n]))"
proof (intro conjI impI)
  show "build_grover_circuit n marked_index iterations = Inl ValueError" if "n < 1"
    using that by (simp add: build_grover_circuit_def)
  show "build_grover_circuit 0 0 1 = Inl ValueError"
    by (simp add: build_grover_circuit_def)
next
  assume a: "1 \<le> n \<and> n \<le> max_format_width \<and> 0 \<le> marked_index \<and> marked_index < 2 ^ nat n"
  define N where "N = nat n"
  define M where "M = nat marked_index"
  have N: "0 < N" "n = int N" and M: "marked_index = int M" "M < 2 ^ N"
    and W: "int N \<le> max_format_width"
    using a by (simp_all add: N_def M_def nat_less_iff)
  let ?orc = "\<lparr>num_qubits = N, num_clbits = 0, name = ''Oracle('' @ msb_bits N M @ '')'',
          data = map Gate (oracle_gates N M)\<rparr>"
  let ?dif = "\<lparr>num_qubits = N, num_clbits = 0, name = ''Diffuser'', data = map Gate (diffuser_gates N)\<rparr>"
  let ?qc = "\<lparr>num_qubits = N, num_clbits = N, name = ''circuit'',
          data = map (\<lambda>q. Gate (H q)) [0..<N]
               @ concat (replicate (nat iterations)
                   [Instruction (''Oracle('' @ msb_bits N M @ '')'') (map Gate (oracle_gates N M)) [0..<N],
                    Instruction ''Diffuser'' (map Gate (diffuser_gates N)) [0..<N]])
               @ map Gate (measure_all N)\<rparr>"
  have o: "build_oracle n marked_index = Inr ?orc"
    unfolding N M using N(1) W M(2) by (rule build_oracle_nat)
  have d: "build_diffuser n = Inr ?dif"
    unfolding N using N(1) by (rule build_diffuser_nat)
  have g: "build_grover_circuit n marked_index iterations = Inr ?qc"
    unfolding N M using N(1) W M(2) by (rule build_grover_circuit_nat)
  have f: "flatten (data ?qc) = map H [0..<N]
                @ concat (replicate (nat iterations) (flatten (data ?orc) @ flatten (data ?dif)))
                @ map (\<lambda>i. Measure i i) [0..<N]"
    using flatten_grover [OF N(1)] by (simp add: measure_all_def)
  have dq: "data ?qc = map (\<lambda>q. Gate (H q)) [0..<N]
                @ concat (replicate (nat iterations)
                    [Instruction (name ?orc) (data ?orc) [0..<N],
                     Instruction (name ?dif) (data ?dif) [0..<N]])
                @ map (\<lambda>i. Gate (Measure i i)) [0..<N]"
    by (simp add: measure_all_def)
  show "\<exists>qc oracle diffuser.
        build_oracle n marked_index = Inr oracle \<and> build_diffuser n = Inr diffuser \<and>
        build_grover_circuit n marked_index iterations = Inr qc \<and>
        num_qubits qc = nat n \<and> num_clbits qc = nat n \<and>
        data qc = map (\<lambda>q. Gate (H q)) [0..<nat n]
                @ concat (replicate (nat iterations)
                    [Instruction (name oracle) (data oracle) [0..<nat n],
                     Instruction (name diffuser) (data diffuser) [0..<nat n]])
                @ map (\<lambda>i. Gate (Measure i i)) [0..<nat n] \<and>
        flatten (data qc) = map H [0..<nat n]
                @ concat (replicate (nat iterations) (flatten (data oracle) @ flatten (data diffuser)))
                @ map (\<lambda>i. Measure i i) [0..<nat n]"
    unfolding N_def [symmetric]
    apply (rule exI [of _ ?qc], rule exI [of _ ?orc], rule exI [of _ ?dif])
    apply (intro conjI o d g f dq)
     apply simp_all
    done
qed

theorem build_grover_circuit_structure_witness:
  "build_grover_circuit 0 0 1 = Inl ValueError \<and>
   (1::int) \<le> 2 \<and> 2 \<le> max_format_width \<and> (0::int) \<le> 2 \<and> (2::int) < 2 ^ nat 2 \<and>
   (\<exists>qc. build_grover_circuit 2 2 1 = Inr qc \<and> num_qubits qc = 2 \<and>
      flatten (data qc) =
        [H 0, H 1, X 1, H 1, MCX [0] 1, H 1, X 1,
         H 0, H 1, X 0, X 1, H 1, MCX [0] 1, H 1, X 0, X 1, H 0, H 1,
         Measure 0 0, Measure 1 1])"
proof -
  have o: "build_oracle 2 2 = Inr \<lparr>num_qubits = 2, num_clbits = 0, name = ''Oracle(10)'',
        data = [Gate (X 1), Gate (H 1), Gate (MCX [0] 1), Gate (H 1), Gate (X 1)]\<rparr>"
    by code_simp
  have d: "build_diffuser 2 = Inr \<lparr>num_qubits = 2, num_clbits = 0, name = ''Diffuser'',
        data = [Gate (H 0), Gate (H 1), Gate (X 0), Gate (X 1), Gate (H 1),
           Gate (MCX [0] 1), Gate (H 1), Gate (X 0), Gate (X 1), Gate (H 0), Gate (H 1)]\<rparr>"
    by code_simp
  have u: "[0..<2] = [0, Suc 0]" by (simp add: upt_rec)
  show ?thesis
    using build_grover_circuit_structure [of 2 2 1]
    by (auto simp add: o d u flatten_def max_format_width_def)
qed

section \<open>Range checks\<close>

lemma build_oracle_out_of_range:
  "0 \<le> n \<Longrightarrow> marked_index < 0 \<or> 2 ^ nat n \<le> marked_index \<Longrightarrow>
   build_oracle n marked_index = Inl ValueError"
  by (auto simp: build_oracle_def ge_pow2_def)

lemma build_oracle_in_range:
  assumes "1 \<le> n" and "n \<le> max_format_width" and "0 \<le> marked_index"
    and "marked_index < 2 ^ nat n"
  shows "build_oracle n marked_index =
     Inr \<lparr>num_qubits = nat n, num_clbits = 0,
          name = ''Oracle('' @ msb_bits (nat n) (nat marked_index) @ '')'',
          data = map Gate (oracle_gates (nat n) (nat marked_index))\<rparr>"
proof -
  have "0 < nat n" "int (nat n) \<le> max_format_width" "nat marked_index < 2 ^ nat n"
    using assms by (simp_all add: nat_less_iff)
  then have "build_oracle (int (nat n)) (int (nat marked_index)) =
     Inr \<lparr>num_qubits = nat n, num_clbits = 0,
          name = ''Oracle('' @ msb_bits (nat n) (nat marked_index) @ '')'',
          data = map Gate (oracle_gates (nat n) (nat marked_index))\<rparr>"
    by (rule build_oracle_nat)
  then show ?thesis using assms by simp
qed

text \<open>
  Claim C6. For a register size \<open>n \<ge> 1\<close>, \<^verbatim>\<open>build_oracle(n, marked_index)\<close> fails with
  \<open>ValueError\<close> (the specification's \<open>DomainError\<close>) whenever \<open>marked_index\<close> lies outside
  \<open>[0, 2\<^sup>n)\<close>. Up to \<open>n = max_format_width\<close>, the widest bitstring Python formats, it fails
  so exactly then, and returns a circuit when the index lies inside; \<^verbatim>\<open>build_oracle(2, 4)\<close>
  fails with \<open>ValueError\<close>.
\<close>
theorem build_oracle_domain:
  assumes "1 \<le> n"
  shows "(\<not> (0 \<le> marked_index \<and> marked_index < 2 ^ nat n)
            \<longrightarrow> build_oracle n marked_index = Inl ValueError) \<and>
         (n \<le> max_format_width \<longrightarrow>
            (build_oracle n marked_index = Inl ValueError
               \<longleftrightarrow> \<not> (0 \<le> marked_index \<and> marked_index < 2 ^ nat n)) \<and>
            (0 \<le> marked_index \<and> marked_index < 2 ^ nat n
               \<longrightarrow> (\<exists>qc. build_oracle n marked_index = Inr qc))) \<and>
         build_oracle 2 4 = Inl ValueError"
proof (intro conjI impI)
  show out: "build_oracle n marked_index = Inl ValueError"
    if "\<not> (0 \<le> marked_index \<and> marked_index < 2 ^ nat n)"
    using that assms by (intro build_oracle_out_of_range) auto
  show "build_oracle n marked_index = Inl ValueError
            \<longleftrightarrow> \<not> (0 \<le> marked_index \<and> marked_index < 2 ^ nat n)"
    if w: "n \<le> max_format_width"
  proof (cases "0 \<le> marked_index \<and> marked_index < 2 ^ nat n")
    case True
    then show ?thesis using assms w by (simp add: build_oracle_in_range)
  next
    case False
    then show ?thesis using out by simp
  qed
  show "\<exists>qc. build_oracle n marked_index = Inr qc"
    if "n \<le> max_format_width" "0 \<le> marked_index \<and> marked_index < 2 ^ nat n"
    using that assms by (simp add: build_oracle_in_range)
  show "build_oracle 2 4 = Inl ValueError"
    by (simp add: build_oracle_def ge_pow2_def)
qed

theorem build_oracle_domain_witness:
  "(1::int) \<le> 2 \<and> 2 \<le> max_format_width \<and>
   build_oracle 2 4 = Inl ValueError \<and> build_oracle 2 (- 1) = Inl ValueError \<and>
   (\<exists>qc. build_oracle 2 3 = Inr qc)"
  using build_oracle_domain [of 2 4] build_oracle_domain [of 2 "- 1"] build_oracle_domain [of 2 3]
  by (simp add: max_format_width_def)

text \<open>
  Claim C10. \<^verbatim>\<open>build_grover_circuit\<close> does not validate the iteration count: for
  \<open>n \<ge> 1\<close> (and no more than \<open>max_format_width\<close>, the widest bitstring Python formats), a
  marked index in \<open>[0, 2\<^sup>n)\<close> and \<open>iterations \<le> 0\<close> it returns a circuit that holds no oracle
  and no diffuser block, only the \<open>H\<close> gate on each of the \<open>n\<close> qubits followed by the
  measurement of each qubit.
\<close>
theorem build_grover_circuit_no_iterations:
  assumes "1 \<le> n" and "n \<le> max_format_width"
    and "0 \<le> marked_index" and "marked_index < 2 ^ nat n" and "iterations \<le> 0"
  shows "\<exists>qc. build_grover_circuit n marked_index iterations = Inr qc \<and>
           data qc = map (\<lambda>q. Gate (H q)) [0..<nat n] @ map (\<lambda>i. Gate (Measure i i)) [0..<nat n]"
proof -
  have "0 < nat n" "int (nat n) \<le> max_format_width" "nat marked_index < 2 ^ nat n"
    using assms by (simp_all add: nat_less_iff)
  then have "build_grover_circuit (int (nat n)) (int (nat marked_index)) iterations =
     Inr \<lparr>num_qubits = nat n, num_clbits = nat n, name = ''circuit'',
          data = map (\<lambda>q. Gate (H q)) [0..<nat n]
               @ concat (replicate (nat iterations)
                   [Instruction (''Oracle('' @ msb_bits (nat n) (nat marked_index) @ '')'')
                      (map Gate (oracle_gates (nat n) (nat marked_index))) [0..<nat n],
                    Instruction ''Diffuser'' (map Gate (diffuser_gates (nat n))) [0..<nat n]])
               @ map Gate (measure_all (nat n))\<rparr>"
    by (rule build_grover_circuit_nat)
  then show ?thesis using assms by (simp add: measure_all_def)
qed

theorem build_grover_circuit_no_iterations_witness:
  "(1::int) \<le> 2 \<and> 2 \<le> max_format_width \<and> (0::int) \<le> 2 \<and> (2::int) < 2 ^ nat 2 \<and>
   (- 3::int) \<le> 0 \<and>
   (\<exists>qc. build_grover_circuit 2 2 (- 3) = Inr qc \<and>
      data qc = [Gate (H 0), Gate (H 1), Gate (Measure 0 0), Gate (Measure 1 1)])"
proof -
  have u: "[0..<2] = [0, Suc 0]" by (simp add: upt_rec)
  show ?thesis
    using build_grover_circuit_no_iterations [of 2 2 "- 3"]
    by (simp add: u max_format_width_def)
qed

text \<open>
  Claim C8, as the code has it. For \<open>1 \<le> n \<le> max_format_width\<close> and \<open>0 \<le> index < 2\<^sup>n\<close>,
  \<^verbatim>\<open>index_to_bitstring(index, n)\<close> returns a string of exactly \<open>n\<close> characters over
  \<open>{0, 1}\<close> that denotes \<open>index\<close> when read most significant digit first, the binary digits
  of \<open>index\<close> behind a padding of zeros. There is no range check on the index: for
  \<open>0 \<le> n \<le> max_format_width\<close> and every \<open>index\<close>, in range or not, a string is returned
  and no error is raised; for a width \<open>n\<close> outside these bounds \<open>ValueError\<close> is raised,
  whatever the index.
\<close>

theorem index_to_bitstring_in_range:
  "(1 \<le> n \<and> n \<le> max_format_width \<and> 0 \<le> index \<and> index < 2 ^ nat n \<longrightarrow>
      (\<exists>s. index_to_bitstring index n = Inr s \<and> length s = nat n
          \<and> set s \<subseteq> {CHR ''0'', CHR ''1''} \<and> bin_value s = nat index
          \<and> s = replicate (nat n - length (bin_digits (nat index))) CHR ''0'' @ bin_digits (nat index))) \<and>
   (0 \<le> n \<and> n \<le> max_format_width \<longrightarrow> (\<exists>s. index_to_bitstring index n = Inr s)) \<and>
   (n < 0 \<or> max_format_width < n \<longrightarrow> index_to_bitstring index n = Inl ValueError)"
proof (intro conjI impI)
  assume a: "1 \<le> n \<and> n \<le> max_format_width \<and> 0 \<le> index \<and> index < 2 ^ nat n"
  let ?d = "bin_digits (nat index)"
  let ?s = "replicate (nat n - length ?d) CHR ''0'' @ ?d"
  have lt: "nat index < 2 ^ nat n" using a by (simp add: nat_less_iff)
  have "length ?d \<le> nat n" using a lt by (intro length_bin_digits_le) simp_all
  then have "length ?s = nat n" by simp
  moreover have "set ?s \<subseteq> {CHR ''0'', CHR ''1''}" using set_bin_digits [of "nat index"] by auto
  moreover have "bin_value ?s = nat index" by (simp add: bin_value_zeros bin_value_bin_digits)
  moreover have "index_to_bitstring index n = Inr ?s" using a by (simp add: index_to_bitstring_nonneg)
  ultimately show "\<exists>s. index_to_bitstring index n = Inr s \<and> length s = nat n
          \<and> set s \<subseteq> {CHR ''0'', CHR ''1''} \<and> bin_value s = nat index
          \<and> s = replicate (nat n - length (bin_digits (nat index))) CHR ''0'' @ bin_digits (nat index)"
    by blast
next
  assume "0 \<le> n \<and> n \<le> max_format_width"
  then show "\<exists>s. index_to_bitstring index n = Inr s"
    by (cases "0 \<le> index") (simp_all add: index_to_bitstring_nonneg index_to_bitstring_neg)
next
  assume "n < 0 \<or> max_format_width < n"
  then show "index_to_bitstring index n = Inl ValueError"
    by (auto simp: index_to_bitstring_def py_format_0nb_def)
qed

theorem index_to_bitstring_in_range_witness:
  "(1::int) \<le> 3 \<and> 3 \<le> max_format_width \<and> (0::int) \<le> 5 \<and> (5::int) < 2 ^ nat 3 \<and>
   index_to_bitstring 5 3 = Inr ''101'' \<and> (\<exists>s. index_to_bitstring 9 3 = Inr s) \<and>
   index_to_bitstring 5 (- 3) = Inl ValueError"
proof -
  have "bin_digits 5 = ''101''" by code_simp
  then show ?thesis
    using index_to_bitstring_in_range [of 3 5] index_to_bitstring_in_range [of 3 9]
      index_to_bitstring_in_range [of "- 3" 5]
    by (simp add: max_format_width_def)
qed

text \<open>
  Claim C8 as stated asks for a \<open>DomainError\<close> whenever \<open>index\<close> is outside \<open>[0, 2\<^sup>n)\<close>, and
  for a string of \<open>n\<close> characters otherwise. At \<open>index = 4\<close>, \<open>n = 2\<close> the index is out of
  range and the function returns \<open>''100''\<close>. At \<open>index = 0\<close>, \<open>n = 2\<^sup>6\<^sup>3\<close> the index is in
  range and the function raises \<open>ValueError\<close>, the width being too long for a format
  specifier.
\<close>

theorem index_to_bitstring_no_range_check:
  "\<not> (0 \<le> (4::int) \<and> (4::int) < 2 ^ 2) \<and> index_to_bitstring 4 2 = Inr ''100'' \<and>
   index_to_bitstring 0 (2 ^ 63) = Inl ValueError"
proof -
  have "index_to_bitstring 4 2 = Inr ''100''" by code_simp
  moreover have "index_to_bitstring 0 (2 ^ 63) = Inl ValueError"
    by (simp add: index_to_bitstring_def py_format_0nb_def max_format_width_def)
  ultimately show ?thesis by simp
qed

text \<open>
  Claim C9, as the code has it. For every \<open>n\<close> with \<open>0 \<le> n \<le> max_format_width\<close> and every
  integer \<open>index\<close>, \<^verbatim>\<open>index_to_bitstring(index, n)\<close> raises nothing and returns a string: for
  \<open>n \<ge> 1\<close> and \<open>0 \<le> index < 2\<^sup>n\<close> exactly \<open>n\<close> characters over \<open>{0, 1}\<close>; for \<open>index \<ge> 2\<^sup>n\<close> a
  string over \<open>{0, 1}\<close> longer than \<open>n\<close> (padding never truncates); for \<open>index < 0\<close> a string
  that starts with the minus sign and so is not a binary string.
\<close>

theorem index_to_bitstring_any_index:
  assumes "0 \<le> n" and "n \<le> max_format_width"
  shows "\<exists>s. index_to_bitstring index n = Inr s \<and>
           (1 \<le> n \<and> 0 \<le> index \<and> index < 2 ^ nat n
              \<longrightarrow> length s = nat n \<and> set s \<subseteq> {CHR ''0'', CHR ''1''}) \<and>
           (2 ^ nat n \<le> index \<longrightarrow> nat n < length s \<and> set s \<subseteq> {CHR ''0'', CHR ''1''}) \<and>
           (index < 0 \<longrightarrow> hd s = CHR ''-'' \<and> \<not> set s \<subseteq> {CHR ''0'', CHR ''1''})"
proof (cases "0 \<le> index")
  case True
  let ?d = "bin_digits (nat index)"
  let ?s = "replicate (nat n - length ?d) CHR ''0'' @ ?d"
  have s: "index_to_bitstring index n = Inr ?s"
    using assms True by (simp add: index_to_bitstring_nonneg)
  have set: "set ?s \<subseteq> {CHR ''0'', CHR ''1''}" using set_bin_digits [of "nat index"] by auto
  have inr: "length ?s = nat n" if "1 \<le> n" "index < 2 ^ nat n"
  proof -
    have "nat index < 2 ^ nat n" using that True by (simp add: nat_less_iff)
    then have "length ?d \<le> nat n" using that by (intro length_bin_digits_le) simp_all
    then show ?thesis by simp
  qed
  have big: "nat n < length ?s" if "2 ^ nat n \<le> index"
  proof -
    have "2 ^ nat n \<le> nat index" using that True by (simp add: le_nat_iff)
    then have "nat n < length ?d" by (rule length_bin_digits_gt)
    then show ?thesis by simp
  qed
  show ?thesis using s set inr big True by auto
next
  case False
  then have "index_to_bitstring index n =
     Inr (CHR ''-'' # replicate (nat n - 1 - length (bin_digits (nat (- index)))) CHR ''0''
          @ bin_digits (nat (- index)))"
    using assms by (simp add: index_to_bitstring_neg)
  moreover have "\<not> 2 ^ nat n \<le> index"
  proof -
    have "(0::int) < 2 ^ nat n" by simp
    then show ?thesis using False by linarith
  qed
  ultimately show ?thesis using False by auto
qed

theorem index_to_bitstring_any_index_witness:
  "(0::int) \<le> 2 \<and> 2 \<le> max_format_width \<and> 3 \<le> max_format_width \<and>
   index_to_bitstring 2 2 = Inr ''10'' \<and> index_to_bitstring 4 2 = Inr ''100''
     \<and> index_to_bitstring (- 1) 3 = Inr ''-01''"
proof -
  have "index_to_bitstring 2 2 = Inr ''10''" "index_to_bitstring 4 2 = Inr ''100''"
       "index_to_bitstring (- 1) 3 = Inr ''-01''"
    by code_simp+
  then show ?thesis
    using index_to_bitstring_any_index [of 2 2] index_to_bitstring_any_index [of 2 4]
      index_to_bitstring_any_index [of 3 "- 1"] by (simp add: max_format_width_def)
qed

text \<open>
  Claim C9 as stated covers all integer inputs. With \<open>n = -1\<close> the format specifier is
  malformed and with \<open>n = 2\<^sup>6\<^sup>3\<close> its width is too long: the call raises \<open>ValueError\<close>. With
  \<open>n = 0\<close> the in-range index 0 gives the one-character string \<open>''0''\<close>, not a string of
  \<open>n = 0\<close> characters.
\<close>

theorem index_to_bitstring_raises:
  "index_to_bitstring 0 (- 1) = Inl ValueError \<and> index_to_bitstring 0 (2 ^ 63) = Inl ValueError \<and>
   index_to_bitstring 0 0 = Inr ''0''"
proof -
  have "index_to_bitstring 0 (- 1) = Inl ValueError" "index_to_bitstring 0 0 = Inr ''0''"
    by code_simp+
  moreover have "index_to_bitstring 0 (2 ^ 63) = Inl ValueError"
    by (simp add: index_to_bitstring_def py_format_0nb_def max_format_width_def)
  ultimately show ?thesis by simp
qed

section \<open>Binary digits of basis indices\<close>

lemma rt2_sq [simp]: "complex_of_real (sqrt 2) * complex_of_real (sqrt 2) = 2"
  by (simp flip: of_real_mult)

lemma rt2_nz [simp]: "complex_of_real (sqrt 2) \<noteq> 0"
  by simp

lemma half_half: "(a / complex_of_real (sqrt 2)) / complex_of_real (sqrt 2) = a / 2"
  by (simp add: field_simps)

lemma less_pow2_iff_bits: "k < 2 ^ n \<longleftrightarrow> (\<forall>i. bit k i \<longrightarrow> i < n)" for k :: nat
proof
  assume "k < 2 ^ n"
  then have "take_bit n k = k" by (simp add: take_bit_nat_eq_self_iff)
  then have "bit k i = bit (take_bit n k) i" for i by simp
  then have "bit k i = (i < n \<and> bit k i)" for i by (simp add: bit_take_bit_iff)
  then show "\<forall>i. bit k i \<longrightarrow> i < n" by blast
next
  assume a: "\<forall>i. bit k i \<longrightarrow> i < n"
  have "take_bit n k = k"
    by (rule bit_eqI) (use a in \<open>auto simp: bit_take_bit_iff\<close>)
  then show "k < 2 ^ n" by (simp add: take_bit_nat_eq_self_iff)
qed

lemma set_bit_less_pow2: "p < n \<Longrightarrow> set_bit p k < 2 ^ n \<longleftrightarrow> k < 2 ^ n" for k :: nat
  by (auto simp: less_pow2_iff_bits bit_set_bit_iff)

lemma unset_bit_less_pow2: "p < n \<Longrightarrow> unset_bit p k < 2 ^ n \<longleftrightarrow> k < 2 ^ n" for k :: nat
  by (auto simp: less_pow2_iff_bits bit_unset_bit_iff)

lemma flip_bit_less_pow2: "p < n \<Longrightarrow> flip_bit p k < 2 ^ n \<longleftrightarrow> k < 2 ^ n" for k :: nat
  by (auto simp: less_pow2_iff_bits bit_flip_bit_iff)

lemma all_ones_iff: "k < 2 ^ n \<Longrightarrow> (\<forall>i<n. bit k i) \<longleftrightarrow> k = 2 ^ n - 1" for k :: nat
proof
  assume k: "k < 2 ^ n" and a: "\<forall>i<n. bit k i"
  have "k = mask n"
    by (rule bit_eqI) (use k a in \<open>auto simp: bit_mask_iff less_pow2_iff_bits\<close>)
  then show "k = 2 ^ n - 1" by (simp add: mask_eq_exp_minus_1)
next
  assume "k = 2 ^ n - 1"
  then have "k = mask n" by (simp add: mask_eq_exp_minus_1)
  then show "\<forall>i<n. bit k i" by (simp add: bit_mask_iff)
qed

lemma all_zero_iff: "(\<forall>i<n. \<not> bit k i) \<and> k < 2 ^ n \<longleftrightarrow> k = 0" for k :: nat
proof
  assume "(\<forall>i<n. \<not> bit k i) \<and> k < 2 ^ n"
  then have "\<not> bit k i" for i by (auto simp: less_pow2_iff_bits)
  then show "k = 0" by (intro bit_eqI) simp
qed simp

lemma same_bits_iff: "k < 2 ^ n \<Longrightarrow> m < 2 ^ n \<Longrightarrow> (\<forall>i<n. bit k i = bit m i) \<longleftrightarrow> k = m"
  for k m :: nat
proof
  assume k: "k < 2 ^ n" and m: "m < 2 ^ n" and a: "\<forall>i<n. bit k i = bit m i"
  show "k = m"
  proof (rule bit_eqI)
    fix i
    show "bit k i = bit m i"
      using k m a by (cases "i < n") (auto simp: less_pow2_iff_bits)
  qed
qed simp

lemma unset_bit_idem [simp]: "unset_bit p (unset_bit p k) = unset_bit p k" for k :: nat
  by (rule bit_eqI) (auto simp: bit_unset_bit_iff)
lemma set_bit_idem [simp]: "set_bit p (set_bit p k) = set_bit p k" for k :: nat
  by (rule bit_eqI) (auto simp: bit_set_bit_iff)
lemma set_unset [simp]: "set_bit p (unset_bit p k) = set_bit p k" for k :: nat
  by (rule bit_eqI) (auto simp: bit_set_bit_iff bit_unset_bit_iff)
lemma unset_set [simp]: "unset_bit p (set_bit p k) = unset_bit p k" for k :: nat
  by (rule bit_eqI) (auto simp: bit_set_bit_iff bit_unset_bit_iff)
lemma set_bit_same: "bit k p \<Longrightarrow> set_bit p k = k" for k :: nat
  by (rule bit_eqI) (auto simp: bit_set_bit_iff)
lemma unset_bit_same: "\<not> bit k p \<Longrightarrow> unset_bit p k = k" for k :: nat
  by (rule bit_eqI) (auto simp: bit_unset_bit_iff)
lemma flip_bit_set: "bit k p \<Longrightarrow> flip_bit p k = unset_bit p k" for k :: nat
  by (simp add: flip_bit_eq_if)
lemma flip_bit_unset: "\<not> bit k p \<Longrightarrow> flip_bit p k = set_bit p k" for k :: nat
  by (simp add: flip_bit_eq_if)
lemma flip_flip [simp]: "flip_bit p (flip_bit p k) = k" for k :: nat
  by (rule bit_eqI) (auto simp: bit_flip_bit_iff)

lemma hgate_hgate: "hgate p (hgate p \<psi>) = \<psi>"
proof
  fix k
  show "hgate p (hgate p \<psi>) k = \<psi> k"
  proof (cases "bit k p")
    case True
    then have "hgate p (hgate p \<psi>) k = \<psi> (set_bit p k)"
      by (simp add: hgate_def bit_set_bit_iff bit_unset_bit_iff field_simps)
    then show ?thesis using True by (simp add: set_bit_same)
  next
    case False
    then have "hgate p (hgate p \<psi>) k = \<psi> (unset_bit p k)"
      by (simp add: hgate_def bit_set_bit_iff bit_unset_bit_iff field_simps)
    then show ?thesis using False by (simp add: unset_bit_same)
  qed
qed

section \<open>The Hadamard layer\<close>

lemma bit_ops_commute:
  fixes k :: nat
  assumes "p \<noteq> q"
  shows "unset_bit p (unset_bit q k) = unset_bit q (unset_bit p k)"
    and "unset_bit p (set_bit q k) = set_bit q (unset_bit p k)"
    and "set_bit p (set_bit q k) = set_bit q (set_bit p k)"
  using assms by (auto intro!: bit_eqI simp: bit_set_bit_iff bit_unset_bit_iff)

lemma hgate_commute: "hgate p (hgate q \<psi>) = hgate q (hgate p \<psi>)"
proof (cases "p = q")
  case True then show ?thesis by simp
next
  case False
  then have c: "unset_bit q (unset_bit p k) = unset_bit p (unset_bit q k)"
       "set_bit q (unset_bit p k) = unset_bit p (set_bit q k)"
       "unset_bit q (set_bit p k) = set_bit p (unset_bit q k)"
       "set_bit q (set_bit p k) = set_bit p (set_bit q k)" for k :: nat
    using bit_ops_commute [of p q k] bit_ops_commute [of q p k] by simp_all
  show ?thesis
  proof
    fix k
    show "hgate p (hgate q \<psi>) k = hgate q (hgate p \<psi>) k"
      using False
      by (simp add: hgate_def bit_set_bit_iff bit_unset_bit_iff c add_divide_distrib algebra_simps)
  qed
qed

lemma hgate_linear:
  "hgate p (\<lambda>j. a * f j + b * g j) = (\<lambda>k. a * hgate p f k + b * hgate p g k)"
  by (rule ext) (simp add: hgate_def field_simps)

lemma hlayer_Nil [simp]: "hlayer [] \<psi> = \<psi>"
  by (simp add: hlayer_def)

lemma hlayer_Cons [simp]: "hlayer (p # ps) \<psi> = hlayer ps (hgate p \<psi>)"
  by (simp add: hlayer_def)

lemma hlayer_linear:
  "hlayer ps (\<lambda>j. a * f j + b * g j) = (\<lambda>k. a * hlayer ps f k + b * hlayer ps g k)"
  by (induction ps arbitrary: f g) (simp_all add: hgate_linear)

lemma hgate_hlayer: "hgate p (hlayer ps \<psi>) = hlayer ps (hgate p \<psi>)"
  by (induction ps arbitrary: \<psi>) (simp_all add: hgate_commute)

lemma hlayer_hlayer: "hlayer ps (hlayer ps \<psi>) = \<psi>"
proof (induction ps arbitrary: \<psi>)
  case Nil show ?case by simp
next
  case (Cons p ps)
  have "hlayer (p # ps) (hlayer (p # ps) \<psi>) = hlayer ps (hlayer ps (hgate p (hgate p \<psi>)))"
    by (simp add: hgate_hlayer)
  then show ?case by (simp add: hgate_hgate Cons.IH)
qed

lemma hgate_register_part: "p < n \<Longrightarrow> hgate p (register_part n \<psi>) = register_part n (hgate p \<psi>)"
  by (rule ext) (simp add: hgate_def register_part_def set_bit_less_pow2 unset_bit_less_pow2)

lemma hlayer_register_part:
  "\<forall>p \<in> set ps. p < n \<Longrightarrow> hlayer ps (register_part n \<psi>) = register_part n (hlayer ps \<psi>)"
  by (induction ps arbitrary: \<psi>) (simp_all add: hgate_register_part)

lemma hgate_indices_over:
  assumes "p \<notin> S"
  shows "hgate p (\<lambda>k. if k \<in> indices_over S then c else 0)
       = (\<lambda>k. if k \<in> indices_over (insert p S) then c / complex_of_real (sqrt 2) else 0)"
proof
  fix k
  have 1: "set_bit p k \<notin> indices_over S"
    using assms by (auto simp: indices_over_def bit_set_bit_iff)
  have 2: "unset_bit p k \<in> indices_over S \<longleftrightarrow> k \<in> indices_over (insert p S)"
    by (auto simp: indices_over_def bit_unset_bit_iff)
  show "hgate p (\<lambda>k. if k \<in> indices_over S then c else 0) k
       = (if k \<in> indices_over (insert p S) then c / complex_of_real (sqrt 2) else 0)"
    by (simp add: hgate_def 1 2)
qed

lemma hlayer_indices_over:
  assumes "distinct ps" and "set ps \<inter> S = {}"
  shows "hlayer ps (\<lambda>k. if k \<in> indices_over S then c else 0)
       = (\<lambda>k. if k \<in> indices_over (S \<union> set ps) then c / complex_of_real (sqrt 2) ^ length ps else 0)"
  using assms
proof (induction ps arbitrary: S c)
  case Nil show ?case by (simp cong: if_cong)
next
  case (Cons p ps)
  have "p \<notin> S" "distinct ps" "set ps \<inter> insert p S = {}"
    using Cons.prems by auto
  then have "hlayer (p # ps) (\<lambda>k. if k \<in> indices_over S then c else 0)
      = (\<lambda>k. if k \<in> indices_over (insert p S \<union> set ps)
             then c / complex_of_real (sqrt 2) / complex_of_real (sqrt 2) ^ length ps else 0)"
    by (simp add: hgate_indices_over Cons.IH)
  moreover have "insert p S \<union> set ps = S \<union> set (p # ps)" by auto
  moreover have "c / complex_of_real (sqrt 2) / complex_of_real (sqrt 2) ^ length ps
      = c / complex_of_real (sqrt 2) ^ length (p # ps)"
    by (simp add: divide_divide_eq_left)
  ultimately show ?case by (simp only:)
qed

lemma indices_over_empty: "indices_over {} = {0}"
  by (auto simp: indices_over_def intro: bit_eqI)

lemma indices_over_upt: "indices_over {0..<n} = {..<2 ^ n}"
  by (auto simp: indices_over_def less_pow2_iff_bits)

lemma finite_indices_over: "finite S \<Longrightarrow> finite (indices_over S)"
proof -
  assume "finite S"
  then obtain n where "S \<subseteq> {0..<n}"
    by (metis atLeastLessThan_iff finite_nat_set_iff_bounded subsetI zero_le)
  then have "indices_over S \<subseteq> indices_over {0..<n}" by (auto simp: indices_over_def)
  then show ?thesis by (simp add: indices_over_upt finite_subset)
qed

lemma indices_over_insert:
  assumes "p \<notin> S"
  shows "indices_over (insert p S) = indices_over S \<union> set_bit p ` indices_over S"
    and "indices_over S \<inter> set_bit p ` indices_over S = {}"
    and "inj_on (set_bit p) (indices_over S)"
proof -
  show "indices_over (insert p S) = indices_over S \<union> set_bit p ` indices_over S"
  proof (intro equalityI subsetI)
    fix k assume k: "k \<in> indices_over (insert p S)"
    show "k \<in> indices_over S \<union> set_bit p ` indices_over S"
    proof (cases "bit k p")
      case False
      then show ?thesis using k by (auto simp: indices_over_def)
    next
      case True
      then have "k = set_bit p (unset_bit p k)" by (simp add: set_bit_same)
      moreover have "unset_bit p k \<in> indices_over S"
        using k by (auto simp: indices_over_def bit_unset_bit_iff)
      ultimately show ?thesis by blast
    qed
  next
    fix k assume "k \<in> indices_over S \<union> set_bit p ` indices_over S"
    then show "k \<in> indices_over (insert p S)"
      by (auto simp: indices_over_def bit_set_bit_iff)
  qed
  show "indices_over S \<inter> set_bit p ` indices_over S = {}"
    using assms by (auto simp: indices_over_def bit_set_bit_iff)
  show "inj_on (set_bit p) (indices_over S)"
  proof (rule inj_onI)
    fix j k assume j: "j \<in> indices_over S" and k: "k \<in> indices_over S" and e: "set_bit p j = set_bit p k"
    have "\<not> bit j p" "\<not> bit k p" using j k assms by (auto simp: indices_over_def)
    then have "j = unset_bit p (set_bit p j)" "k = unset_bit p (set_bit p k)"
      by (simp_all add: unset_bit_same)
    then show "j = k" using e by simp
  qed
qed

lemma hlayer_at_0:
  assumes "distinct ps"
  shows "hlayer ps \<psi> 0 = (\<Sum>k \<in> indices_over (set ps). \<psi> k) / complex_of_real (sqrt 2) ^ length ps"
  using assms
proof (induction ps arbitrary: \<psi>)
  case Nil show ?case by (simp add: indices_over_empty)
next
  case (Cons p ps)
  then have p: "p \<notin> set ps" and d: "distinct ps" by simp_all
  have fin: "finite (indices_over (set ps))" by (simp add: finite_indices_over)
  have h: "hgate p \<psi> k = (\<psi> k + \<psi> (set_bit p k)) / complex_of_real (sqrt 2)"
    if "k \<in> indices_over (set ps)" for k
  proof -
    have "\<not> bit k p" using that p by (auto simp: indices_over_def)
    then show ?thesis by (simp add: hgate_def unset_bit_same)
  qed
  have "hlayer (p # ps) \<psi> 0 = (\<Sum>k \<in> indices_over (set ps). hgate p \<psi> k) / complex_of_real (sqrt 2) ^ length ps"
    using d by (simp add: Cons.IH)
  also have "(\<Sum>k \<in> indices_over (set ps). hgate p \<psi> k)
      = (\<Sum>k \<in> indices_over (set ps). (\<psi> k + \<psi> (set_bit p k)) / complex_of_real (sqrt 2))"
    by (rule sum.cong) (simp_all add: h)
  also have "\<dots> = ((\<Sum>k \<in> indices_over (set ps). \<psi> k) + (\<Sum>k \<in> indices_over (set ps). \<psi> (set_bit p k)))
        / complex_of_real (sqrt 2)"
    by (simp add: sum.distrib sum_divide_distrib add_divide_distrib)
  also have "(\<Sum>k \<in> indices_over (set ps). \<psi> (set_bit p k)) = (\<Sum>k \<in> set_bit p ` indices_over (set ps). \<psi> k)"
    using indices_over_insert(3) [OF p] by (simp add: sum.reindex)
  also have "(\<Sum>k \<in> indices_over (set ps). \<psi> k) + (\<Sum>k \<in> set_bit p ` indices_over (set ps). \<psi> k)
      = (\<Sum>k \<in> indices_over (insert p (set ps)). \<psi> k)"
    using indices_over_insert(1,2) [OF p] fin by (simp add: sum.union_disjoint)
  finally show ?case by (simp add: divide_divide_eq_left mult.commute)
qed

section \<open>Effect of the gate sequences\<close>

lemma run_gates_Nil: "run_gates n [] \<psi> = \<psi>"
  by (simp add: run_gates_def)

lemma run_gates_Cons: "run_gates n (g # gs) \<psi> = run_gates n gs (apply_gate n g \<psi>)"
  by (simp add: run_gates_def)

lemma run_gates_append: "run_gates n (gs @ hs) \<psi> = run_gates n hs (run_gates n gs \<psi>)"
  by (simp add: run_gates_def)

lemma apply_gate_H: "apply_gate n (H q) \<psi> = hgate (qubit_pos n q) \<psi>"
  by (simp add: hgate_def)

lemma hgate_at:
  "hgate p \<phi> k = (\<phi> (unset_bit p k) + (if bit k p then - 1 else 1) * \<phi> (set_bit p k))
      / complex_of_real (sqrt 2)"
  by (simp add: hgate_def)

lemma run_gates_H_layer: "run_gates n (map H qs) \<psi> = hlayer (map (qubit_pos n) qs) \<psi>"
  by (induction qs arbitrary: \<psi>) (simp_all add: run_gates_Nil run_gates_Cons flip: hgate_def)

lemma run_gates_X_layer:
  "run_gates n (map X qs) \<psi> = (\<lambda>k. \<psi> (flips (map (qubit_pos n) qs) k))"
  by (induction qs arbitrary: \<psi>) (simp_all add: flips_def run_gates_Nil run_gates_Cons)

lemma run_gates_measure_all: "run_gates n (measure_all m) \<psi> = \<psi>"
proof -
  have "run_gates n (map (\<lambda>i. Measure i i) qs) \<psi> = \<psi>" for qs
    by (induction qs) (simp_all add: run_gates_Nil run_gates_Cons)
  then show ?thesis by (simp add: measure_all_def)
qed

lemma bit_flips:
  "distinct ps \<Longrightarrow> bit (flips ps k) i \<longleftrightarrow> (bit k i \<noteq> (i \<in> set ps))"
proof (induction ps)
  case Nil show ?case by (simp add: flips_def)
next
  case (Cons p ps)
  then have "bit (flips ps k) i \<longleftrightarrow> (bit k i \<noteq> (i \<in> set ps))" and "p \<notin> set ps" by simp_all
  moreover have "bit (flips (p # ps) k) i \<longleftrightarrow> (p = i \<longleftrightarrow> \<not> bit (flips ps k) i)"
    by (simp add: flips_def bit_flip_bit_iff)
  ultimately show ?case by auto
qed

lemma flips_flips: "distinct ps \<Longrightarrow> flips ps (flips ps k) = k"
  by (rule bit_eqI) (auto simp: bit_flips)

lemma qubit_pos_last: "0 < n \<Longrightarrow> qubit_pos n (n - Suc 0) = 0"
  by (simp add: qubit_pos_def)

lemma controls_iff:
  "(\<forall>c \<in> {0..<n - Suc 0}. bit k (qubit_pos n c)) \<longleftrightarrow> (\<forall>i. 0 < i \<and> i < n \<longrightarrow> bit k i)"
proof
  assume a: "\<forall>c \<in> {0..<n - Suc 0}. bit k (qubit_pos n c)"
  show "\<forall>i. 0 < i \<and> i < n \<longrightarrow> bit k i"
  proof (intro allI impI)
    fix i assume i: "0 < i \<and> i < n"
    then have "n - 1 - i \<in> {0..<n - Suc 0}" by auto
    with a have "bit k (qubit_pos n (n - 1 - i))" by blast
    moreover have "qubit_pos n (n - 1 - i) = i" using i by (simp add: qubit_pos_def)
    ultimately show "bit k i" by simp
  qed
next
  assume a: "\<forall>i. 0 < i \<and> i < n \<longrightarrow> bit k i"
  show "\<forall>c \<in> {0..<n - Suc 0}. bit k (qubit_pos n c)"
    using a by (auto simp: qubit_pos_def)
qed

lemma all_below_split: "0 < n \<Longrightarrow> (\<forall>i<n. bit k i) \<longleftrightarrow> bit k 0 \<and> (\<forall>i. 0 < i \<and> i < n \<longrightarrow> bit k i)"
  for k :: nat
  by (metis gr0I)

lemma run_gates_mcz:
  assumes "0 < n"
  shows "run_gates n (mcz_gates n) \<psi> = (\<lambda>k. if \<forall>i<n. bit k i then - \<psi> k else \<psi> k)"
proof (cases "n = 1")
  case True
  then show ?thesis by (simp add: mcz_gates_def qubit_pos_def run_gates_Nil run_gates_Cons)
next
  case False
  define C where "C k \<longleftrightarrow> (\<forall>i. 0 < i \<and> i < n \<longrightarrow> bit k i)" for k :: nat
  have C: "C (set_bit 0 k) = C k" "C (unset_bit 0 k) = C k" "C (flip_bit 0 k) = C k" for k
    by (auto simp: C_def bit_set_bit_iff bit_unset_bit_iff bit_flip_bit_iff)
  have g: "mcz_gates n = [H (n - 1), MCX [0..<n - 1] (n - 1), H (n - 1)]"
    using False by (simp add: mcz_gates_def)
  define mcx :: "state \<Rightarrow> state" where "mcx \<phi> = (\<lambda>k. if C k then \<phi> (flip_bit 0 k) else \<phi> k)" for \<phi>
  have pl: "qubit_pos n (n - 1) = 0" using assms by (simp add: qubit_pos_def)
  have m: "apply_gate n (MCX [0..<n - 1] (n - 1)) \<phi> = mcx \<phi>" for \<phi>
    using assms by (simp add: controls_iff qubit_pos_last C_def mcx_def cong: if_cong)
  have r: "run_gates n (mcz_gates n) \<psi> = hgate 0 (mcx (hgate 0 \<psi>))"
    unfolding g by (simp only: run_gates_Cons run_gates_Nil apply_gate_H m pl)
  have "hgate 0 (mcx (hgate 0 \<psi>)) k = (if C k \<and> bit k 0 then - \<psi> k else \<psi> k)" for k
  proof (cases "C k")
    case False
    then have "mcx \<phi> (unset_bit 0 k) = \<phi> (unset_bit 0 k)" "mcx \<phi> (set_bit 0 k) = \<phi> (set_bit 0 k)"
      for \<phi>
      by (simp_all add: mcx_def C)
    then have "hgate 0 (mcx (hgate 0 \<psi>)) k = hgate 0 (hgate 0 \<psi>) k"
      by (simp only: hgate_at [of 0 "mcx (hgate 0 \<psi>)"] hgate_at [of 0 "hgate 0 \<psi>"])
    then show ?thesis using False by (simp add: hgate_hgate)
  next
    case True
    have u: "mcx (hgate 0 \<psi>) (unset_bit 0 k) = (\<psi> (unset_bit 0 k) - \<psi> (set_bit 0 k)) / complex_of_real (sqrt 2)"
      using True by (simp add: mcx_def C flip_bit_unset bit_unset_bit_iff hgate_at bit_set_bit_iff)
    have v: "mcx (hgate 0 \<psi>) (set_bit 0 k) = (\<psi> (unset_bit 0 k) + \<psi> (set_bit 0 k)) / complex_of_real (sqrt 2)"
      using True by (simp add: mcx_def C flip_bit_set bit_unset_bit_iff hgate_at bit_set_bit_iff)
    show ?thesis
    proof (cases "bit k 0")
      case b: True
      have "hgate 0 (mcx (hgate 0 \<psi>)) k = - \<psi> (set_bit 0 k)"
        using b by (simp add: hgate_at [of 0 "mcx (hgate 0 \<psi>)"] u v field_simps)
      then show ?thesis using True b by (simp add: set_bit_same)
    next
      case b: False
      have "hgate 0 (mcx (hgate 0 \<psi>)) k = \<psi> (unset_bit 0 k)"
        using b by (simp add: hgate_at [of 0 "mcx (hgate 0 \<psi>)"] u v field_simps)
      then show ?thesis using True b by (simp add: unset_bit_same)
    qed
  qed
  then have "run_gates n (mcz_gates n) \<psi> k = (if C k \<and> bit k 0 then - \<psi> k else \<psi> k)" for k
    by (simp add: r)
  moreover have "(C k \<and> bit k 0) = (\<forall>i<n. bit k i)" for k
    using assms by (auto simp: all_below_split C_def)
  ultimately show ?thesis by (intro ext) simp
qed

lemma zero_positions_iff:
  "q \<in> set (zero_positions i bs) \<longleftrightarrow> i \<le> q \<and> q < i + length bs \<and> bs ! (q - i) = CHR ''0''"
proof (induction i bs rule: zero_positions.induct)
  case (1 i) show ?case by simp
next
  case (2 i b bs)
  have nth: "(b # bs) ! (q - i) = (if q = i then b else bs ! (q - Suc i))" if "i \<le> q"
    using that by (auto simp: nth_Cons')
  show ?case
  proof (cases "i \<le> q")
    case True
    then show ?thesis using 2 by (auto simp: nth)
  next
    case False
    then show ?thesis using 2 by auto
  qed
qed

lemma distinct_zero_positions: "distinct (zero_positions i bs)"
  by (induction i bs rule: zero_positions.induct) (auto simp: zero_positions_iff)

lemma inj_on_qubit_pos: "inj_on (qubit_pos n) {0..<n}"
  by (rule inj_onI) (auto simp: qubit_pos_def)

lemma qubit_pos_upt: "qubit_pos n ` {0..<n} = {0..<n}"
proof (intro equalityI subsetI)
  fix i assume "i \<in> {0..<n}"
  then have "i = qubit_pos n (n - 1 - i)" "n - 1 - i \<in> {0..<n}" by (auto simp: qubit_pos_def)
  then show "i \<in> qubit_pos n ` {0..<n}" by blast
qed (auto simp: qubit_pos_def)

lemma all_positions:
  "distinct (map (qubit_pos n) [0..<n])" "set (map (qubit_pos n) [0..<n]) = {0..<n}"
  "length (map (qubit_pos n) [0..<n]) = n"
  using inj_on_qubit_pos [of n] by (simp_all add: distinct_map qubit_pos_upt)

lemma oracle_positions:
  fixes n m :: nat
  defines "ps \<equiv> map (qubit_pos n) (zero_positions 0 (msb_bits n m))"
  shows "distinct ps" and "set ps = {i. i < n \<and> \<not> bit m i}"
proof -
  have sub: "set (zero_positions 0 (msb_bits n m)) \<subseteq> {0..<n}"
    by (auto simp: zero_positions_iff)
  then have "inj_on (qubit_pos n) (set (zero_positions 0 (msb_bits n m)))"
    using inj_on_qubit_pos by (rule inj_on_subset [rotated])
  then show "distinct ps"
    by (simp add: ps_def distinct_map distinct_zero_positions)
  have z: "q \<in> set (zero_positions 0 (msb_bits n m)) \<longleftrightarrow> q < n \<and> \<not> bit m (n - 1 - q)" for q
    by (auto simp: zero_positions_iff msb_bits_nth)
  show "set ps = {i. i < n \<and> \<not> bit m i}"
  proof (intro equalityI subsetI)
    fix i assume "i \<in> set ps"
    then obtain q where "q < n" "\<not> bit m (n - 1 - q)" "i = qubit_pos n q"
      by (auto simp: ps_def z)
    then show "i \<in> {i. i < n \<and> \<not> bit m i}" by (auto simp: qubit_pos_def)
  next
    fix i assume "i \<in> {i. i < n \<and> \<not> bit m i}"
    then have "n - 1 - i < n" "\<not> bit m (n - 1 - (n - 1 - i))" "i = qubit_pos n (n - 1 - i)"
      by (auto simp: qubit_pos_def)
    then have "n - 1 - i \<in> set (zero_positions 0 (msb_bits n m))" "i = qubit_pos n (n - 1 - i)"
      by (simp_all add: z)
    then show "i \<in> set ps" unfolding ps_def by (metis image_eqI set_map)
  qed
qed

lemma run_gates_oracle:
  assumes "0 < n"
  shows "run_gates n (oracle_gates n m) \<psi> = (\<lambda>k. if \<forall>i<n. bit k i = bit m i then - \<psi> k else \<psi> k)"
proof
  fix k
  define ps where "ps = map (qubit_pos n) (zero_positions 0 (msb_bits n m))"
  have d: "distinct ps" and s: "set ps = {i. i < n \<and> \<not> bit m i}"
    unfolding ps_def by (rule oracle_positions)+
  have b: "(\<forall>i<n. bit (flips ps k) i) \<longleftrightarrow> (\<forall>i<n. bit k i = bit m i)"
    by (auto simp: bit_flips [OF d] s)
  have "run_gates n (oracle_gates n m) \<psi>
      = run_gates n (map X (zero_positions 0 (msb_bits n m)))
          (run_gates n (mcz_gates n) (run_gates n (map X (zero_positions 0 (msb_bits n m))) \<psi>))"
    by (simp add: oracle_gates_def run_gates_append)
  also have "\<dots> = (\<lambda>k. if \<forall>i<n. bit (flips ps k) i then - \<psi> (flips ps (flips ps k))
                      else \<psi> (flips ps (flips ps k)))"
    by (simp only: run_gates_X_layer run_gates_mcz [OF assms] flip: ps_def)
  finally have "run_gates n (oracle_gates n m) \<psi> k
      = (if \<forall>i<n. bit (flips ps k) i then - \<psi> (flips ps (flips ps k)) else \<psi> (flips ps (flips ps k)))"
    by (rule fun_cong)
  then show "run_gates n (oracle_gates n m) \<psi> k = (if \<forall>i<n. bit k i = bit m i then - \<psi> k else \<psi> k)"
    by (simp only: b flips_flips [OF d])
qed

lemma rt2_power: "complex_of_real (sqrt 2) ^ n = complex_of_real (sqrt (2 ^ n))"
  by (simp add: real_sqrt_power)

lemma rt2_power_sq: "complex_of_real (sqrt 2) ^ n * complex_of_real (sqrt 2) ^ n = 2 ^ n"
  by (simp flip: power_mult_distrib)

lemma init_state_indices_over: "init_state = (\<lambda>k. if k \<in> indices_over {} then 1 else 0)"
  by (simp add: init_state_def indices_over_empty)

lemma run_gates_H_all_init: "run_gates n (map H [0..<n]) init_state = uniform_state n"
proof -
  have "hlayer (map (qubit_pos n) [0..<n]) (\<lambda>k. if k \<in> indices_over {} then 1 else 0)
      = (\<lambda>k. if k \<in> indices_over ({} \<union> set (map (qubit_pos n) [0..<n]))
             then 1 / complex_of_real (sqrt 2) ^ length (map (qubit_pos n) [0..<n]) else 0)"
    by (rule hlayer_indices_over) (simp_all add: all_positions)
  then have "hlayer (map (qubit_pos n) [0..<n]) init_state
      = (\<lambda>k. if k \<in> indices_over {0..<n} then 1 / complex_of_real (sqrt 2) ^ n else 0)"
    by (simp only: all_positions Un_empty_left flip: init_state_indices_over)
  then show ?thesis
    by (simp add: run_gates_H_layer uniform_state_def indices_over_upt rt2_power cong: if_cong)
qed

lemma run_gates_diffuser:
  assumes "0 < n" and "k < 2 ^ n"
  shows "run_gates n (diffuser_gates n) \<psi> k = \<psi> k - 2 * mean_amplitude n \<psi>"
proof -
  define ps where "ps = map (qubit_pos n) [0..<n]"
  have d: "distinct ps" and s: "set ps = {0..<n}" and l: "length ps = n"
    unfolding ps_def by (rule all_positions)+
  define \<phi> where "\<phi> = hlayer ps \<psi>"
  define \<zeta> :: state where "\<zeta> = (\<lambda>j. if \<forall>i<n. \<not> bit j i then \<phi> j else 0)"
  have b: "(\<forall>i<n. bit (flips ps j) i) \<longleftrightarrow> (\<forall>i<n. \<not> bit j i)" for j
    by (auto simp: bit_flips [OF d] s)
  have "run_gates n (diffuser_gates n) \<psi>
      = run_gates n (map H [0..<n]) (run_gates n (map X [0..<n]) (run_gates n (mcz_gates n)
          (run_gates n (map X [0..<n]) (run_gates n (map H [0..<n]) \<psi>))))"
    by (simp add: diffuser_gates_def run_gates_append)
  also have "\<dots> = hlayer ps (\<lambda>j. if \<forall>i<n. bit (flips ps j) i then - \<phi> (flips ps (flips ps j))
                        else \<phi> (flips ps (flips ps j)))"
    by (simp only: run_gates_X_layer run_gates_H_layer run_gates_mcz [OF assms(1)] flip: ps_def \<phi>_def)
  also have "(\<lambda>j. if \<forall>i<n. bit (flips ps j) i then - \<phi> (flips ps (flips ps j))
                        else \<phi> (flips ps (flips ps j)))
      = (\<lambda>j. 1 * \<phi> j + (- 2) * \<zeta> j)"
    by (rule ext) (auto simp: b flips_flips [OF d] \<zeta>_def)
  also have "hlayer ps \<dots> = (\<lambda>k. 1 * hlayer ps \<phi> k + (- 2) * hlayer ps \<zeta> k)"
    by (rule hlayer_linear)
  finally have D: "run_gates n (diffuser_gates n) \<psi> k = \<psi> k - 2 * hlayer ps \<zeta> k"
    by (simp add: \<phi>_def hlayer_hlayer)
  have "register_part n \<zeta> = (\<lambda>j. if j \<in> indices_over {} then \<phi> 0 else 0)"
  proof
    fix j :: nat
    have "(j < 2 ^ n \<and> (\<forall>i<n. \<not> bit j i)) = (j = 0)" using all_zero_iff [where k = j and n = n] by auto
    then show "register_part n \<zeta> j = (if j \<in> indices_over {} then \<phi> 0 else 0)"
      by (auto simp: register_part_def \<zeta>_def indices_over_empty)
  qed
  then have "hlayer ps (register_part n \<zeta>)
      = (\<lambda>k. if k \<in> indices_over ({} \<union> set ps) then \<phi> 0 / complex_of_real (sqrt 2) ^ length ps else 0)"
    using d by (simp add: hlayer_indices_over)
  moreover have "hlayer ps (register_part n \<zeta>) = register_part n (hlayer ps \<zeta>)"
    by (rule hlayer_register_part) (simp add: s)
  ultimately have "register_part n (hlayer ps \<zeta>) k = \<phi> 0 / complex_of_real (sqrt 2) ^ n"
    using assms(2) by (simp add: s l indices_over_upt)
  then have z: "hlayer ps \<zeta> k = \<phi> 0 / complex_of_real (sqrt 2) ^ n"
    using assms(2) by (simp add: register_part_def)
  have "\<phi> 0 = (\<Sum>j<2 ^ n. \<psi> j) / complex_of_real (sqrt 2) ^ n"
    unfolding \<phi>_def using hlayer_at_0 [OF d, of \<psi>] by (simp add: s l indices_over_upt)
  then have "hlayer ps \<zeta> k = (\<Sum>j<2 ^ n. \<psi> j) / 2 ^ n"
    by (simp add: z divide_divide_eq_left rt2_power_sq)
  then show ?thesis by (simp add: D mean_amplitude_def)
qed

lemma mean_reflected:
  "mean_amplitude n (\<lambda>k. \<psi> k - 2 * mean_amplitude n \<psi>) = - mean_amplitude n \<psi>"
proof -
  have "(\<Sum>k<2 ^ n. \<psi> k - 2 * mean_amplitude n \<psi>)
      = (\<Sum>k<2 ^ n. \<psi> k) - 2 ^ n * (2 * mean_amplitude n \<psi>)"
    by (simp add: sum_subtractf)
  then show ?thesis
    by (simp add: mean_amplitude_def [of n "\<lambda>k. \<psi> k - 2 * mean_amplitude n \<psi>"] diff_divide_distrib)
       (simp add: mean_amplitude_def)
qed

section \<open>Oracle and diffuser on state vectors\<close>

lemma oracle_flatten:
  assumes "0 < n" and "m < 2 ^ n" and "k < 2 ^ n"
  shows "run_gates n (oracle_gates n m) \<psi> k = (if k = m then - \<psi> k else \<psi> k)"
  using assms by (simp add: run_gates_oracle same_bits_iff)

lemma cmod_uniform: "k < 2 ^ n \<Longrightarrow> cmod (uniform_state n k) = 1 / sqrt (2 ^ n)"
  by (simp add: uniform_state_def norm_divide)

text \<open>
  Claim C3. For \<open>n \<ge> 2\<close> the gates \<open>H(n - 1)\<close>, \<open>MCX\<close> with controls \<open>0, \<dots>, n - 2\<close> and target
  \<open>n - 1\<close>, \<open>H(n - 1)\<close> act on the state vector as a multi-controlled Z: the amplitude of the
  all-ones basis state \<open>2\<^sup>n - 1\<close> is multiplied by \<open>-1\<close> and every other amplitude is
  unchanged. For \<open>n = 1\<close> the gate \<open>Z(0)\<close> does the same to the state \<open>|1\<rangle>\<close>. These are the
  gates the multi-controlled-Z statements of both \<^verbatim>\<open>build_oracle\<close> and \<^verbatim>\<open>build_diffuser\<close> append.
\<close>
theorem multi_controlled_z_phase_flip:
  "(2 \<le> n \<longrightarrow> (\<forall>k<2 ^ n. run_gates n [H (n - 1), MCX [0..<n - 1] (n - 1), H (n - 1)] \<psi> k
                      = (if k = 2 ^ n - 1 then - \<psi> k else \<psi> k))) \<and>
   (\<forall>k<2. run_gates 1 [Z 0] \<psi> k = (if k = 1 then - \<psi> k else \<psi> k)) \<and>
   (1 \<le> n \<and> num_qubits qc = n \<longrightarrow>
      (\<exists>qc'. multi_controlled_z qc (int n) = Inr qc' \<and>
         data qc' = data qc @ map Gate (if n = 1 then [Z 0]
                                         else [H (n - 1), MCX [0..<n - 1] (n - 1), H (n - 1)])))"
proof (intro conjI impI allI)
  fix k :: nat
  assume n: "2 \<le> n" and k: "k < 2 ^ n"
  have "mcz_gates n = [H (n - 1), MCX [0..<n - 1] (n - 1), H (n - 1)]"
    using n by (simp add: mcz_gates_def)
  moreover have "run_gates n (mcz_gates n) \<psi> k = (if k = 2 ^ n - 1 then - \<psi> k else \<psi> k)"
    using n k by (simp add: run_gates_mcz all_ones_iff)
  ultimately show "run_gates n [H (n - 1), MCX [0..<n - 1] (n - 1), H (n - 1)] \<psi> k
      = (if k = 2 ^ n - 1 then - \<psi> k else \<psi> k)"
    by (simp only:)
next
  fix k :: nat
  assume k: "k < 2"
  have "mcz_gates 1 = [Z 0]" by (simp add: mcz_gates_def)
  moreover have "run_gates 1 (mcz_gates 1) \<psi> k = (if k = 2 ^ 1 - 1 then - \<psi> k else \<psi> k)"
    using k all_ones_iff [of k 1] by (simp add: run_gates_mcz)
  ultimately show "run_gates 1 [Z 0] \<psi> k = (if k = 1 then - \<psi> k else \<psi> k)"
    by simp
next
  assume a: "1 \<le> n \<and> num_qubits qc = n"
  then have "multi_controlled_z qc (int n) = Inr (add_instrs qc (map Gate (mcz_gates n)))"
    by (intro multi_controlled_z_nat) simp_all
  then show "\<exists>qc'. multi_controlled_z qc (int n) = Inr qc' \<and>
         data qc' = data qc @ map Gate (if n = 1 then [Z 0]
                                         else [H (n - 1), MCX [0..<n - 1] (n - 1), H (n - 1)])"
    by (simp add: mcz_gates_def)
qed

theorem multi_controlled_z_phase_flip_witness:
  "(2::nat) \<le> 3 \<and> (7::nat) < 2 ^ 3 \<and> (5::nat) < 2 ^ 3 \<and>
   run_gates 3 [H 2, MCX [0, 1] 2, H 2] init_state 0 = 1 \<and>
   run_gates 3 [H 2, MCX [0, 1] 2, H 2] (uniform_state 3) 7 = - uniform_state 3 7 \<and>
   run_gates 3 [H 2, MCX [0, 1] 2, H 2] (uniform_state 3) 5 = uniform_state 3 5 \<and>
   run_gates 1 [Z 0] (uniform_state 1) 1 = - uniform_state 1 1"
proof -
  have u: "[0..<2] = [0, Suc 0]" by (simp add: upt_rec)
  show ?thesis
    using multi_controlled_z_phase_flip [of 3 init_state]
      multi_controlled_z_phase_flip [of 3 "uniform_state 3"]
      multi_controlled_z_phase_flip [of 1 "uniform_state 1"]
    by (simp add: u init_state_def)
qed

text \<open>
  Claim C1. For \<open>n \<in> {1, 2, 3}\<close> and a marked index in \<open>[0, 2\<^sup>n)\<close>, the circuit of
  \<^verbatim>\<open>build_oracle(n, marked_index)\<close>, applied to the uniform superposition over \<open>n\<close> qubits,
  gives a state vector in which the amplitude of \<open>marked_index\<close> has changed its sign and no
  other amplitude has changed, every magnitude being \<open>1 / \<surd>(2\<^sup>n)\<close>. The circuit is a phase
  oracle: on any state it negates the amplitude of \<open>marked_index\<close> and leaves the others.
\<close>
theorem build_oracle_phase_flip:
  assumes "n \<in> {1, 2, 3}" and "0 \<le> marked_index" and "marked_index < 2 ^ nat n"
  shows "\<exists>qc. build_oracle n marked_index = Inr qc \<and>
     (\<forall>k<2 ^ nat n.
        run_gates (nat n) (flatten (data qc)) (uniform_state (nat n)) k
          = (if k = nat marked_index then - uniform_state (nat n) k else uniform_state (nat n) k) \<and>
        cmod (run_gates (nat n) (flatten (data qc)) (uniform_state (nat n)) k) = 1 / sqrt (2 ^ nat n)) \<and>
     (\<forall>\<psi>. \<forall>k<2 ^ nat n.
        run_gates (nat n) (flatten (data qc)) \<psi> k = (if k = nat marked_index then - \<psi> k else \<psi> k))"
proof -
  define N where "N = nat n"
  define M where "M = nat marked_index"
  have N: "0 < N" and M: "M < 2 ^ N" and n1: "1 \<le> n"
    using assms by (auto simp: N_def M_def nat_less_iff)
  let ?qc = "\<lparr>num_qubits = N, num_clbits = 0, name = ''Oracle('' @ msb_bits N M @ '')'',
          data = map Gate (oracle_gates N M)\<rparr>"
  have w: "n \<le> max_format_width"
    using assms(1) by (auto simp: max_format_width_def)
  have b: "build_oracle n marked_index = Inr ?qc"
    unfolding N_def M_def using n1 w assms(2,3) by (rule build_oracle_in_range)
  have r: "run_gates N (flatten (data ?qc)) \<psi> k = (if k = M then - \<psi> k else \<psi> k)"
    if "k < 2 ^ N" for \<psi> k
    using N M that by (simp add: oracle_flatten)
  have c: "cmod (run_gates N (flatten (data ?qc)) (uniform_state N) k) = 1 / sqrt (2 ^ N)"
    if "k < 2 ^ N" for k
    using that by (simp only: r [OF that] if_distrib [of cmod] norm_minus_cancel cmod_uniform if_cancel)
  show ?thesis
    unfolding N_def [symmetric] M_def [symmetric]
    by (rule exI [of _ ?qc]) (use b r c in blast)
qed

theorem build_oracle_phase_flip_witness:
  "(2::int) \<in> {1, 2, 3} \<and> (0::int) \<le> 2 \<and> (2::int) < 2 ^ nat 2 \<and>
   (\<exists>qc. build_oracle 2 2 = Inr qc \<and>
      run_gates 2 (flatten (data qc)) (uniform_state 2) 2 = - (1 / 2) \<and>
      run_gates 2 (flatten (data qc)) (uniform_state 2) 3 = 1 / 2)"
proof -
  have "uniform_state 2 2 = 1 / 2" "uniform_state 2 3 = 1 / 2"
    by (simp_all add: uniform_state_def)
  then show ?thesis
    using build_oracle_phase_flip [of 2 2] by auto
qed

text \<open>
  Claim C2. For every \<open>n \<ge> 1\<close> the circuit of \<^verbatim>\<open>build_diffuser(n)\<close>, applied twice to any
  state vector (normalized or not), gives the amplitudes back unchanged, and a single
  application is the reflection about the mean \<open>a\<^sub>k \<mapsto> 2\<mu> - a\<^sub>k\<close> up to the global phase
  factor \<open>-1\<close>.
\<close>
theorem build_diffuser_reflection:
  assumes "1 \<le> n"
  shows "\<exists>qc. build_diffuser n = Inr qc \<and>
     (\<forall>\<psi>. \<forall>k<2 ^ nat n.
        run_gates (nat n) (flatten (data qc)) \<psi> k = - (2 * mean_amplitude (nat n) \<psi> - \<psi> k) \<and>
        run_gates (nat n) (flatten (data qc)) (run_gates (nat n) (flatten (data qc)) \<psi>) k = \<psi> k)"
proof -
  define N where "N = nat n"
  have N: "0 < N" "n = int N" using assms by (simp_all add: N_def)
  let ?qc = "\<lparr>num_qubits = N, num_clbits = 0, name = ''Diffuser'', data = map Gate (diffuser_gates N)\<rparr>"
  have b: "build_diffuser n = Inr ?qc"
    unfolding N(2) using N(1) by (rule build_diffuser_nat)
  have r: "run_gates N (diffuser_gates N) \<psi> k = \<psi> k - 2 * mean_amplitude N \<psi>" if "k < 2 ^ N" for \<psi> k
    using N(1) that by (rule run_gates_diffuser)
  have rr: "run_gates N (diffuser_gates N) (run_gates N (diffuser_gates N) \<psi>) k = \<psi> k"
    if k: "k < 2 ^ N" for \<psi> k
  proof -
    let ?\<chi> = "run_gates N (diffuser_gates N) \<psi>"
    have "(\<Sum>j<2 ^ N. ?\<chi> j) = (\<Sum>j<2 ^ N. \<psi> j - 2 * mean_amplitude N \<psi>)"
      by (rule sum.cong) (simp_all add: r)
    then have "mean_amplitude N ?\<chi> = mean_amplitude N (\<lambda>j. \<psi> j - 2 * mean_amplitude N \<psi>)"
      by (simp only: mean_amplitude_def [where \<psi> = "?\<chi>"]
          mean_amplitude_def [where \<psi> = "\<lambda>j. \<psi> j - 2 * mean_amplitude N \<psi>"])
    then have "mean_amplitude N ?\<chi> = - mean_amplitude N \<psi>"
      by (simp add: mean_reflected)
    then show ?thesis by (simp add: r [OF k])
  qed
  show ?thesis
    unfolding N_def [symmetric]
    by (rule exI [of _ ?qc]) (use b r rr in simp)
qed

theorem build_diffuser_reflection_witness:
  "(1::int) \<le> 1 \<and>
   (\<exists>qc. build_diffuser 1 = Inr qc \<and>
      run_gates 1 (flatten (data qc)) init_state 0 = 0 \<and>
      run_gates 1 (flatten (data qc)) init_state 1 = - 1 \<and>
      run_gates 1 (flatten (data qc)) (run_gates 1 (flatten (data qc)) init_state) 0 = 1)"
proof -
  from build_diffuser_reflection [of 1] obtain qc where b: "build_diffuser 1 = Inr qc"
    and r: "\<And>\<psi> k. k < 2 \<Longrightarrow>
        run_gates 1 (flatten (data qc)) \<psi> k = - (2 * mean_amplitude 1 \<psi> - \<psi> k) \<and>
        run_gates 1 (flatten (data qc)) (run_gates 1 (flatten (data qc)) \<psi>) k = \<psi> k"
    by auto
  have m: "mean_amplitude (Suc 0) init_state = 1 / 2" "init_state 0 = 1" "init_state (Suc 0) = 0"
    by (simp_all add: mean_amplitude_def init_state_def lessThan_Suc numeral_2_eq_2)
  have "run_gates 1 (flatten (data qc)) init_state 0 = 0"
    and "run_gates 1 (flatten (data qc)) init_state 1 = - 1"
    and "run_gates 1 (flatten (data qc)) (run_gates 1 (flatten (data qc)) init_state) 0 = 1"
    using r [of 0 init_state] r [of 1 init_state] by (simp_all add: m)
  with b show ?thesis by auto
qed

section \<open>The end-to-end scenario\<close>

lemma uniform_2: "k < 4 \<Longrightarrow> uniform_state 2 k = 1 / 2"
  by (simp add: uniform_state_def)

lemma grover_2_2_1_state:
  assumes "k < 4"
  shows "run_gates 2 (map H [0..<2] @ oracle_gates 2 2 @ diffuser_gates 2 @ measure_all 2) init_state k
       = (if k = 2 then - 1 else 0)"
proof -
  define \<chi> where "\<chi> = run_gates 2 (oracle_gates 2 2) (uniform_state 2)"
  have \<chi>: "\<chi> j = (if j = 2 then - (1 / 2) else 1 / 2)" if "j < 4" for j
    using that oracle_flatten [of 2 2 j "uniform_state 2"] by (simp add: \<chi>_def uniform_2)
  have "(\<Sum>j<2 ^ 2. \<chi> j) = (\<Sum>j<2 ^ 2. if j = (2::nat) then - (1 / 2) else 1 / 2)"
    by (rule sum.cong) (simp_all add: \<chi>)
  also have "\<dots> = 1"
    by (simp add: lessThan_Suc numeral_eq_Suc)
  finally have m: "mean_amplitude 2 \<chi> = 1 / 4"
    by (simp add: mean_amplitude_def)
  have "run_gates 2 (map H [0..<2] @ oracle_gates 2 2 @ diffuser_gates 2 @ measure_all 2) init_state
      = run_gates 2 (diffuser_gates 2) \<chi>"
    by (simp add: run_gates_append run_gates_measure_all run_gates_H_all_init \<chi>_def)
  moreover have "run_gates 2 (diffuser_gates 2) \<chi> k = \<chi> k - 2 * mean_amplitude 2 \<chi>"
    using assms by (intro run_gates_diffuser) simp_all
  ultimately show ?thesis using assms by (simp add: m \<chi>)
qed

lemma grover_2_2_1_gates:
  "map H [0..<2] @ oracle_gates 2 2 @ diffuser_gates 2 @ measure_all 2 =
     [H 0, H 1, X 1, H 1, MCX [0] 1, H 1, X 1,
      H 0, H 1, X 0, X 1, H 1, MCX [0] 1, H 1, X 0, X 1, H 0, H 1,
      Measure 0 0, Measure 1 1]"
  by code_simp

lemma counts_key_2_2_1:
  assumes "num_qubits qc = 2" and "num_clbits qc = 2"
    and "flatten (data qc) = map H [0..<2] @ oracle_gates 2 2 @ diffuser_gates 2 @ measure_all 2"
  shows "counts_key qc 2 = ''01''"
proof -
  have u: "[0..<2] = [0, Suc 0]" by (simp add: upt_rec)
  show ?thesis
    unfolding counts_key_def assms(1,2) assms(3) [unfolded grover_2_2_1_gates]
    by (simp add: u qubit_pos_def bit_Suc bit_0)
qed

lemma funpow_count_shot:
  "(count_shot qc k ^^ r) [counts_key qc k \<mapsto> c] = [counts_key qc k \<mapsto> c + r]"
proof (induction r)
  case 0 show ?case by simp
next
  case (Suc r)
  have "(count_shot qc k ^^ Suc r) [counts_key qc k \<mapsto> c]
      = count_shot qc k ((count_shot qc k ^^ r) [counts_key qc k \<mapsto> c])"
    by (simp only: funpow.simps o_apply)
  also have "\<dots> = count_shot qc k [counts_key qc k \<mapsto> c + r]"
    by (simp only: Suc.IH)
  also have "\<dots> = [counts_key qc k \<mapsto> c + Suc r]"
    by (simp add: count_shot_def)
  finally show ?case .
qed

lemma get_counts_same: "0 < r \<Longrightarrow> get_counts qc (replicate r k) = [counts_key qc k \<mapsto> r]"
proof -
  assume "0 < r"
  then obtain r' where r: "r = Suc r'" by (cases r) auto
  have "get_counts qc (replicate r k) = (count_shot qc k ^^ Suc r') Map.empty"
    by (simp only: get_counts_def r fold_replicate)
  also have "\<dots> = (count_shot qc k ^^ r') (count_shot qc k Map.empty)"
    by (simp only: funpow_Suc_right o_apply)
  also have "count_shot qc k Map.empty = [counts_key qc k \<mapsto> 1]"
    by (simp add: count_shot_def)
  also have "(count_shot qc k ^^ r') [counts_key qc k \<mapsto> 1] = [counts_key qc k \<mapsto> 1 + r']"
    by (rule funpow_count_shot)
  finally show ?thesis by (simp add: r)
qed

text \<open>
  Claim C7 at its input \<open>n = 2\<close>, \<open>marked_index = 2\<close>, \<open>iterations = 1\<close>, \<open>shots = 1024\<close>, on the
  code. The final state of the assembled circuit gives the probability 1 to the basis state
  of index 2, in which qubit 0 has the value 1 and qubit 1 the value 0, and the probability
  0 to every other one. \<^verbatim>\<open>index_to_bitstring(2, 2)\<close> is \<open>''10''\<close>; but the measurement writes
  qubit \<open>i\<close> into classical bit \<open>i\<close> and the key of a shot shows classical bit 1 first, so the
  key of that state is \<open>''01''\<close>: for every possible sample of 1024 shots the outcome-count
  mapping is \<open>{''01'': 1024}\<close>, and the key \<open>''10''\<close> that the claim names has no count in it.
\<close>
theorem grover_2_2_1_counts:
  "\<exists>qc. build_grover_circuit 2 2 1 = Inr qc \<and>
     probability (statevector qc) 2 = 1 \<and>
     (\<forall>k<4. k \<noteq> 2 \<longrightarrow> probability (statevector qc) k = 0) \<and>
     index_to_bitstring 2 2 = Inr ''10'' \<and>
     counts_key qc 2 = ''01'' \<and>
     (\<forall>draws. length draws = 1024 \<and> possible_sample 2 (statevector qc) draws
        \<longrightarrow> get_counts qc draws = [''01'' \<mapsto> 1024] \<and> get_counts qc draws ''10'' = None)"
proof -
  let ?gs = "map H [0..<2] @ oracle_gates 2 2 @ diffuser_gates 2 @ measure_all 2"
  obtain qc where b: "build_grover_circuit 2 2 1 = Inr qc" and n: "num_qubits qc = 2"
    and c: "num_clbits qc = 2" and f: "flatten (data qc) = ?gs"
  proof -
    have "build_grover_circuit (int 2) (int 2) 1 =
       Inr \<lparr>num_qubits = 2, num_clbits = 2, name = ''circuit'',
          data = map (\<lambda>q. Gate (H q)) [0..<2]
               @ concat (replicate (nat 1)
                   [Instruction (''Oracle('' @ msb_bits 2 2 @ '')'') (map Gate (oracle_gates 2 2)) [0..<2],
                    Instruction ''Diffuser'' (map Gate (diffuser_gates 2)) [0..<2]])
               @ map Gate (measure_all 2)\<rparr>"
      by (rule build_grover_circuit_nat) (simp_all add: max_format_width_def)
    moreover have "flatten (map (\<lambda>q. Gate (H q)) [0..<2]
               @ concat (replicate (nat 1)
                   [Instruction (''Oracle('' @ msb_bits 2 2 @ '')'') (map Gate (oracle_gates 2 2)) [0..<2],
                    Instruction ''Diffuser'' (map Gate (diffuser_gates 2)) [0..<2]])
               @ map Gate (measure_all 2)) = ?gs"
      using flatten_grover [of 2 "nat 1"] by simp
    ultimately show ?thesis using that by simp
  qed
  have sv: "statevector qc k = (if k = 2 then - 1 else 0)" if "k < 4" for k
    using that by (simp add: statevector_def n f grover_2_2_1_state)
  have p2: "probability (statevector qc) 2 = 1"
    by (simp add: probability_def sv)
  have p0: "probability (statevector qc) k = 0" if "k < 4" "k \<noteq> 2" for k
    using that by (simp add: probability_def sv)
  have key: "counts_key qc 2 = ''01''"
    using n c f by (rule counts_key_2_2_1)
  have t: "get_counts qc draws = [''01'' \<mapsto> 1024] \<and> get_counts qc draws ''10'' = None"
    if "length draws = 1024 \<and> possible_sample 2 (statevector qc) draws" for draws
  proof -
    have "\<forall>k \<in> set draws. k = 2"
      using that p0 by (fastforce simp: possible_sample_def)
    then have "replicate (length draws) 2 = draws" by (rule replicate_length_same)
    then have "draws = replicate 1024 2" using that by simp
    then have "get_counts qc draws = [counts_key qc 2 \<mapsto> 1024]"
      by (simp add: get_counts_same)
    then show ?thesis by (simp add: key)
  qed
  have k: "index_to_bitstring 2 2 = Inr ''10''" by code_simp
  show ?thesis
    by (rule exI [of _ qc]) (use b p2 p0 t k key in auto)
qed

theorem grover_2_2_1_counts_witness:
  "\<exists>qc. build_grover_circuit 2 2 1 = Inr qc \<and> (0::nat) < 4 \<and> (0::nat) \<noteq> 2 \<and>
     probability (statevector qc) 0 = 0 \<and> probability (statevector qc) 2 = 1 \<and>
     length (replicate 1024 (2::nat)) = 1024 \<and> possible_sample 2 (statevector qc) (replicate 1024 2) \<and>
     get_counts qc (replicate 1024 2) = [''01'' \<mapsto> 1024]"
proof -
  from grover_2_2_1_counts obtain qc where b: "build_grover_circuit 2 2 1 = Inr qc"
    and p2: "probability (statevector qc) 2 = 1"
    and p0: "\<forall>k<4. k \<noteq> 2 \<longrightarrow> probability (statevector qc) k = 0"
    and t: "\<forall>draws. length draws = 1024 \<and> possible_sample 2 (statevector qc) draws
        \<longrightarrow> get_counts qc draws = [''01'' \<mapsto> 1024] \<and> get_counts qc draws ''10'' = None"
    by blast
  have s: "possible_sample 2 (statevector qc) (replicate 1024 2)"
    by (simp add: possible_sample_def p2)
  then have "get_counts qc (replicate 1024 2) = [''01'' \<mapsto> 1024]"
    using t by simp
  with b p2 p0 s show ?thesis by auto
qed

section \<open>The iteration-count advisor\<close>

















lemma accurate_exact_ops: "accurate 0 exact_ops"
  by (simp add: accurate_def exact_ops_def)




























end
